theory Spec2Isabelle
  imports Complex_Main
begin

section \<open>De Bruijn graph assembly: the graph model\<close>

text \<open>
  The program keeps its graph in a \<^verbatim>\<open>networkx.DiGraph\<close>: a dictionary of nodes and, per
  node, dictionaries of successors and predecessors, all of them in insertion order.
  The model keeps the nodes in insertion order and the edges in insertion order; the
  successors (predecessors) of a node are read off the edge list in that order, which is
  the order of the library's adjacency dictionaries. Edge weights are the k-mer counts
  (Python integers). Averages are exact rationals: the rounding of Python's floats is not
  modelled.

  Every exception the program or the library can raise is a value of \<open>py_error\<close>.
\<close>

datatype py_error =
  StatisticsError | NetworkXError | NetworkXPointlessConcept | NodeNotFound | IndexError
  | ValueError | TypeError | RecursionError

record 'a graph =
  nodes :: "'a list"
  edges :: "(('a \<times> 'a) \<times> int) list"

text \<open>
  A function that mutates the graph returns an \<open>outcome\<close>: the graph it returns, or the
  exception it raised together with the graph as the mutation left it.
\<close>

datatype 'a outcome = Ok "'a graph" | Raise py_error "'a graph"

definition has_edge :: "'a graph \<Rightarrow> 'a \<Rightarrow> 'a \<Rightarrow> bool" where
  "has_edge g u v = ((u, v) \<in> set (map fst (edges g)))"

definition successors :: "'a graph \<Rightarrow> 'a \<Rightarrow> 'a list" where
  "successors g n = map (snd \<circ> fst) (filter (\<lambda>e. fst (fst e) = n) (edges g))"

definition predecessors :: "'a graph \<Rightarrow> 'a \<Rightarrow> 'a list" where
  "predecessors g n = map (fst \<circ> fst) (filter (\<lambda>e. snd (fst e) = n) (edges g))"

text \<open>\<^verbatim>\<open>G.degree\<close>: in-degree plus out-degree (a self-loop counts twice).\<close>

definition degree :: "'a graph \<Rightarrow> 'a \<Rightarrow> nat" where
  "degree g n = length (successors g n) + length (predecessors g n)"

text \<open>\<^verbatim>\<open>nx.isolates\<close>: the nodes of degree 0, in node order.\<close>

definition isolates :: "'a graph \<Rightarrow> 'a list" where
  "isolates g = filter (\<lambda>n. degree g n = 0) (nodes g)"

text \<open>
  \<^verbatim>\<open>G.add_edge(u, v, weight=w)\<close>: adds \<open>u\<close> and then \<open>v\<close> when they are new; an edge that
  exists keeps its place and takes the new weight.
\<close>

definition add_node :: "'a graph \<Rightarrow> 'a \<Rightarrow> 'a graph" where
  "add_node g n = (if n \<in> set (nodes g) then g else g\<lparr>nodes := nodes g @ [n]\<rparr>)"

definition add_edge :: "'a graph \<Rightarrow> 'a \<Rightarrow> 'a \<Rightarrow> int \<Rightarrow> 'a graph" where
  "add_edge g u v w =
     (let g1 = add_node (add_node g u) v
      in if has_edge g1 u v
         then g1\<lparr>edges := map (\<lambda>e. if fst e = (u, v) then ((u, v), w) else e) (edges g1)\<rparr>
         else g1\<lparr>edges := edges g1 @ [((u, v), w)]\<rparr>)"

text \<open>\<^verbatim>\<open>G.remove_edge(u, v)\<close> raises \<^verbatim>\<open>NetworkXError\<close> when there is no such edge.\<close>

definition remove_edge :: "'a graph \<Rightarrow> 'a \<Rightarrow> 'a \<Rightarrow> py_error + 'a graph" where
  "remove_edge g u v =
     (if has_edge g u v
      then Inr (g\<lparr>edges := filter (\<lambda>e. fst e \<noteq> (u, v)) (edges g)\<rparr>)
      else Inl NetworkXError)"

text \<open>
  \<^verbatim>\<open>G.remove_nodes_from(ns)\<close>: each node that is in the graph goes with its incident
  edges; a node that is not in the graph is skipped silently.
\<close>

definition remove_node :: "'a graph \<Rightarrow> 'a \<Rightarrow> 'a graph" where
  "remove_node g n =
     (if n \<in> set (nodes g)
      then g\<lparr>nodes := filter (\<lambda>m. m \<noteq> n) (nodes g),
             edges := filter (\<lambda>e. fst (fst e) \<noteq> n \<and> snd (fst e) \<noteq> n) (edges g)\<rparr>
      else g)"

fun remove_nodes_from :: "'a graph \<Rightarrow> 'a list \<Rightarrow> 'a graph" where
  "remove_nodes_from g [] = g"
| "remove_nodes_from g (n # ns) = remove_nodes_from (remove_node g n) ns"

text \<open>
  The invariant the library keeps: no node twice, no edge twice, every end of an edge a
  node.
\<close>

definition wf_graph :: "'a graph \<Rightarrow> bool" where
  "wf_graph g =
     (distinct (nodes g) \<and> distinct (map fst (edges g)) \<and>
      (\<forall>e \<in> set (edges g). fst (fst e) \<in> set (nodes g) \<and> snd (fst e) \<in> set (nodes g)))"

section \<open>\<^verbatim>\<open>remove_paths\<close>\<close>

text \<open>
  The inner loop of \<^verbatim>\<open>remove_paths\<close>: \<^verbatim>\<open>graph.remove_edge(path[i], path[i+1])\<close> for
  \<open>i\<close> from 0 to \<open>len(path) - 2\<close>. A missing edge raises, and the edges removed so far stay
  removed.
\<close>

fun remove_path_edges :: "'a graph \<Rightarrow> 'a list \<Rightarrow> 'a outcome" where
  "remove_path_edges g (u # v # rest) =
     (case remove_edge g u v of
        Inl e \<Rightarrow> Raise e g
      | Inr g' \<Rightarrow> remove_path_edges g' (v # rest))"
| "remove_path_edges g [u] = Ok g"
| "remove_path_edges g [] = Ok g"

fun remove_all_paths :: "'a graph \<Rightarrow> 'a list list \<Rightarrow> 'a outcome" where
  "remove_all_paths g [] = Ok g"
| "remove_all_paths g (p # ps) =
     (case remove_path_edges g p of
        Raise e g' \<Rightarrow> Raise e g'
      | Ok g' \<Rightarrow> remove_all_paths g' ps)"

text \<open>
  \<^verbatim>\<open>[i[0] for i in path_list]\<close> and \<^verbatim>\<open>[i[-1] for i in path_list]\<close> raise \<^verbatim>\<open>IndexError\<close> on
  an empty path, before any node is removed.
\<close>

definition remove_paths :: "'a graph \<Rightarrow> 'a list list \<Rightarrow> bool \<Rightarrow> bool \<Rightarrow> 'a outcome" where
  "remove_paths g path_list delete_entry_node delete_sink_node =
     (case remove_all_paths g path_list of
        Raise e g' \<Rightarrow> Raise e g'
      | Ok g1 \<Rightarrow>
          if delete_entry_node \<and> [] \<in> set path_list then Raise IndexError g1
          else
            let g2 = (if delete_entry_node
                      then remove_nodes_from g1 (map hd path_list) else g1)
            in if delete_sink_node \<and> [] \<in> set path_list then Raise IndexError g2
               else
                 let g3 = (if delete_sink_node
                           then remove_nodes_from g2 (map last path_list) else g2)
                 in Ok (remove_nodes_from g3 (isolates g3)))"

section \<open>\<^verbatim>\<open>select_best_path\<close>\<close>

text \<open>
  \<^verbatim>\<open>statistics.stdev\<close> raises \<^verbatim>\<open>StatisticsError\<close> on fewer than two data points. It is the
  square root of the sample variance, so \<^verbatim>\<open>statistics.stdev(xs) > 0\<close> holds exactly when
  the variance is positive; the program uses the standard deviation in this test only.
\<close>

definition mean :: "rat list \<Rightarrow> py_error + rat" where
  "mean xs = (if xs = [] then Inl StatisticsError else Inr (sum_list xs / of_nat (length xs)))"

definition variance :: "rat list \<Rightarrow> py_error + rat" where
  "variance xs =
     (if length xs < 2 then Inl StatisticsError
      else let m = sum_list xs / of_nat (length xs)
           in Inr (sum_list (map (\<lambda>x. (x - m) * (x - m)) xs) / of_nat (length xs - 1)))"

definition stdev_positive :: "rat list \<Rightarrow> py_error + bool" where
  "stdev_positive xs = (case variance xs of Inl e \<Rightarrow> Inl e | Inr v \<Rightarrow> Inr (0 < v))"

text \<open>\<^verbatim>\<open>max(xs)\<close> on a non-empty list, and \<^verbatim>\<open>xs.index(x)\<close>: the first position of \<open>x\<close>.\<close>

definition py_max :: "'b::linorder list \<Rightarrow> 'b" where
  "py_max xs = fold max (tl xs) (hd xs)"

fun index :: "'b list \<Rightarrow> 'b \<Rightarrow> nat" where
  "index [] x = 0"
| "index (y # ys) x = (if y = x then 0 else Suc (index ys x))"

text \<open>
  \<^verbatim>\<open>xs.pop(i)\<close>: a negative index counts from the end; an index out of range raises
  \<^verbatim>\<open>IndexError\<close>. The value is the list that is left.
\<close>

definition pop :: "'b list \<Rightarrow> int \<Rightarrow> py_error + 'b list" where
  "pop xs i =
     (if 0 \<le> i \<and> i < int (length xs)
      then Inr (take (nat i) xs @ drop (Suc (nat i)) xs)
      else if i < 0 \<and> - int (length xs) \<le> i
      then Inr (take (nat (int (length xs) + i)) xs @ drop (Suc (nat (int (length xs) + i))) xs)
      else Inl IndexError)"

text \<open>
  \<^verbatim>\<open>random.randint(a, b)\<close> draws from the interpreter's generator, seeded once with
  \<^verbatim>\<open>random.seed(9001)\<close> when the module is loaded. The generator is a parameter: a function
  from the bounds and the generator's state to the number drawn and the next state.
  \<^verbatim>\<open>randint\<close> raises \<^verbatim>\<open>ValueError\<close> on an empty range.
\<close>

type_synonym 's randint = "int \<Rightarrow> int \<Rightarrow> 's \<Rightarrow> int \<times> 's"

definition py_randint :: "'s randint \<Rightarrow> int \<Rightarrow> int \<Rightarrow> 's \<Rightarrow> py_error + (int \<times> 's)" where
  "py_randint randint a b s = (if b < a then Inl ValueError else Inr (randint a b s))"

text \<open>
  Lines 171 to 179 of the source: the two spreads are computed first, then the index is
  chosen. \<open>n\<close> is \<^verbatim>\<open>len(path_list)\<close>.
\<close>

definition selected_path_index ::
  "'s randint \<Rightarrow> nat \<Rightarrow> int list \<Rightarrow> rat list \<Rightarrow> 's \<Rightarrow> py_error + (int \<times> 's)" where
  "selected_path_index randint n path_length weight_avg_list s =
     (case stdev_positive weight_avg_list of
        Inl e \<Rightarrow> Inl e
      | Inr std_weight \<Rightarrow>
          (case stdev_positive (map of_int path_length) of
             Inl e \<Rightarrow> Inl e
           | Inr std_length \<Rightarrow>
               if std_weight
               then Inr (int (index weight_avg_list (py_max weight_avg_list)), s)
               else if std_length
               then Inr (int (index path_length (py_max path_length)), s)
               else py_randint randint 0 (int n - 1) s))"

definition select_best_path ::
  "'s randint \<Rightarrow> 'a graph \<Rightarrow> 'a list list \<Rightarrow> int list \<Rightarrow> rat list \<Rightarrow> bool \<Rightarrow> bool \<Rightarrow> 's
     \<Rightarrow> 'a outcome \<times> 's" where
  "select_best_path randint g path_list path_length weight_avg_list
       delete_entry_node delete_sink_node s =
     (if length path_list = 1 then (Ok g, s)
      else
        case selected_path_index randint (length path_list) path_length weight_avg_list s of
          Inl e \<Rightarrow> (Raise e g, s)
        | Inr (selected, s') \<Rightarrow>
            (case pop path_list selected of
               Inl e \<Rightarrow> (Raise e g, s')
             | Inr losers \<Rightarrow> (remove_paths g losers delete_entry_node delete_sink_node, s')))"

section \<open>Path utilities\<close>

text \<open>
  \<^verbatim>\<open>nx.all_simple_paths(G, source, target)\<close>: a depth-first search from the source along
  the successors in their order, never entering a node twice, with the library's cutoff
  of \<open>len(G) - 1\<close> edges. At a child that is the target the path is produced and the
  search does not go below it. A source that is not a node raises \<^verbatim>\<open>NodeNotFound\<close>; a
  source equal to the target gives no path. (For a target that is not a node the library
  searches for the target's characters; when the target has the length of the node
  labels, as every label the program passes has, none of them is a node and no path is
  produced, as here.)
\<close>

fun simple_paths_from :: "nat \<Rightarrow> 'a graph \<Rightarrow> 'a \<Rightarrow> 'a list \<Rightarrow> 'a \<Rightarrow> 'a list list" where
  "simple_paths_from 0 g target visited u = []"
| "simple_paths_from (Suc cutoff) g target visited u =
     concat (map (\<lambda>child.
                    if child \<in> set visited then []
                    else if child = target then [visited @ [child]]
                    else simple_paths_from cutoff g target (visited @ [child]) child)
                 (successors g u))"

definition all_simple_paths :: "'a graph \<Rightarrow> 'a \<Rightarrow> 'a \<Rightarrow> py_error + 'a list list" where
  "all_simple_paths g source target =
     (if source \<notin> set (nodes g) then Inl NodeNotFound
      else if source = target then Inr []
      else Inr (simple_paths_from (length (nodes g) - 1) g target [source] source))"

text \<open>The first exception of a list of results, or all the values.\<close>

fun collect :: "(py_error + 'b) list \<Rightarrow> py_error + 'b list" where
  "collect [] = Inr []"
| "collect (Inl e # rs) = Inl e"
| "collect (Inr x # rs) = (case collect rs of Inl e \<Rightarrow> Inl e | Inr xs \<Rightarrow> Inr (x # xs))"

text \<open>
  \<^verbatim>\<open>path_average_weight\<close>: the mean of the weights of the edges of
  \<^verbatim>\<open>graph.subgraph(path)\<close>, the subgraph induced by the nodes of the path: every edge of
  the graph with both ends among the nodes of the path.
\<close>

definition subgraph_edges :: "'a graph \<Rightarrow> 'a list \<Rightarrow> (('a \<times> 'a) \<times> int) list" where
  "subgraph_edges g path =
     filter (\<lambda>e. fst (fst e) \<in> set path \<and> snd (fst e) \<in> set path) (edges g)"

definition path_average_weight :: "'a graph \<Rightarrow> 'a list \<Rightarrow> py_error + rat" where
  "path_average_weight g path = mean (map (\<lambda>e. of_int (snd e)) (subgraph_edges g path))"

text \<open>
  \<^verbatim>\<open>graph.get_edge_data(*path)["weight"]\<close>: for a path of two nodes the weight of their
  edge. Without such an edge \<^verbatim>\<open>get_edge_data\<close> is \<^verbatim>\<open>None\<close> and the subscript raises
  \<^verbatim>\<open>TypeError\<close>, as does a call with fewer than two nodes. (The program reaches this
  only for paths of at most two nodes.)
\<close>

definition edge_data_weight :: "'a graph \<Rightarrow> 'a list \<Rightarrow> py_error + rat" where
  "edge_data_weight g path =
     (case path of
        [u, v] \<Rightarrow> (case map_of (edges g) (u, v) of
                     Some w \<Rightarrow> Inr (of_int w)
                   | None \<Rightarrow> Inl TypeError)
      | _ \<Rightarrow> Inl TypeError)"

definition get_starting_nodes :: "'a graph \<Rightarrow> 'a list" where
  "get_starting_nodes g = filter (\<lambda>node. length (predecessors g node) = 0) (nodes g)"

definition get_sink_nodes :: "'a graph \<Rightarrow> 'a list" where
  "get_sink_nodes g = filter (\<lambda>node. length (successors g node) = 0) (nodes g)"

section \<open>Bubbles\<close>

text \<open>
  \<^verbatim>\<open>solve_bubble\<close>. The ancestor and the descendant are Python variables that start as
  \<^verbatim>\<open>None\<close>; \<^verbatim>\<open>None\<close> is not a node, and \<^verbatim>\<open>all_simple_paths\<close> raises \<^verbatim>\<open>NodeNotFound\<close> for
  it.
\<close>

definition solve_bubble ::
  "'s randint \<Rightarrow> 'a graph \<Rightarrow> 'a option \<Rightarrow> 'a option \<Rightarrow> 's \<Rightarrow> 'a outcome \<times> 's" where
  "solve_bubble randint g ancestor_node descendant_node s =
     (case (ancestor_node, descendant_node) of
        (Some a, Some d) \<Rightarrow>
          (case all_simple_paths g a d of
             Inl e \<Rightarrow> (Raise e g, s)
           | Inr all_paths \<Rightarrow>
               (case collect (map (path_average_weight g) all_paths) of
                  Inl e \<Rightarrow> (Raise e g, s)
                | Inr all_weigths \<Rightarrow>
                    select_best_path randint g all_paths
                      (map (\<lambda>path. int (length path) - 1) all_paths) all_weigths
                      False False s))
      | _ \<Rightarrow> (Raise NodeNotFound g, s))"

text \<open>
  \<^verbatim>\<open>nx.lowest_common_ancestor\<close> is the library's; it is a parameter of
  \<^verbatim>\<open>simplify_bubbles\<close>: a function from the graph and two nodes to an exception or to
  the ancestor found, if any. Where two nodes have several lowest common ancestors the
  library returns the one its iteration over a set of node labels meets first, and that
  order changes with the hash seed of the interpreter, which \<^verbatim>\<open>random.seed\<close> does not
  set. The parameter is the library's function as it answers within one run of the
  interpreter; two runs of the program may differ in it.
\<close>

type_synonym 'a lca = "'a graph \<Rightarrow> 'a \<Rightarrow> 'a \<Rightarrow> py_error + 'a option"

text \<open>
  The scan of \<^verbatim>\<open>simplify_bubbles\<close>. Its state is the three variables \<^verbatim>\<open>bubble\<close>,
  \<^verbatim>\<open>noeud_ancetre\<close> and \<^verbatim>\<open>noeud_descendant\<close>. The loop over \<^verbatim>\<open>node_j\<close> assigns
  \<^verbatim>\<open>noeud_ancetre\<close> at every pair and breaks at the first ancestor found; the loop over
  \<^verbatim>\<open>node_i\<close> breaks when \<^verbatim>\<open>bubble\<close> is set; the loop over the nodes of the graph has no
  \<^verbatim>\<open>break\<close> and goes on to the last node.
\<close>

type_synonym 'a scan_state = "bool \<times> 'a option \<times> 'a option"

fun scan_pairs ::
  "'a lca \<Rightarrow> 'a graph \<Rightarrow> 'a \<Rightarrow> 'a \<Rightarrow> 'a list \<Rightarrow> 'a scan_state \<Rightarrow> py_error + 'a scan_state" where
  "scan_pairs lca g node node_i [] st = Inr st"
| "scan_pairs lca g node node_i (node_j # rest) (bubble, noeud_ancetre, noeud_descendant) =
     (case lca g node_i node_j of
        Inl e \<Rightarrow> Inl e
      | Inr None \<Rightarrow> scan_pairs lca g node node_i rest (bubble, None, noeud_descendant)
      | Inr (Some a) \<Rightarrow> Inr (True, Some a, Some node))"

fun scan_preds ::
  "'a lca \<Rightarrow> 'a graph \<Rightarrow> 'a \<Rightarrow> 'a list \<Rightarrow> 'a scan_state \<Rightarrow> py_error + 'a scan_state" where
  "scan_preds lca g node [] st = Inr st"
| "scan_preds lca g node (node_i # rest) st =
     (case scan_pairs lca g node node_i rest st of
        Inl e \<Rightarrow> Inl e
      | Inr (bubble, noeud_ancetre, noeud_descendant) \<Rightarrow>
          if bubble then Inr (bubble, noeud_ancetre, noeud_descendant)
          else scan_preds lca g node rest (bubble, noeud_ancetre, noeud_descendant))"

fun scan_nodes ::
  "'a lca \<Rightarrow> 'a graph \<Rightarrow> 'a list \<Rightarrow> 'a scan_state \<Rightarrow> py_error + 'a scan_state" where
  "scan_nodes lca g [] st = Inr st"
| "scan_nodes lca g (node # rest) st =
     (if length (predecessors g node) > 1
      then (case scan_preds lca g node (predecessors g node) st of
              Inl e \<Rightarrow> Inl e
            | Inr st' \<Rightarrow> scan_nodes lca g rest st')
      else scan_nodes lca g rest st)"

text \<open>
  \<^verbatim>\<open>simplify_bubbles\<close> calls itself once per bubble resolved. The first argument is the
  number of nested calls the interpreter still allows; at 0 the call raises
  \<^verbatim>\<open>RecursionError\<close>.
\<close>

fun simplify_bubbles ::
  "'a lca \<Rightarrow> 's randint \<Rightarrow> nat \<Rightarrow> 'a graph \<Rightarrow> 's \<Rightarrow> 'a outcome \<times> 's" where
  "simplify_bubbles lca randint 0 g s = (Raise RecursionError g, s)"
| "simplify_bubbles lca randint (Suc depth) g s =
     (case scan_nodes lca g (nodes g) (False, None, None) of
        Inl e \<Rightarrow> (Raise e g, s)
      | Inr (bubble, noeud_ancetre, noeud_descendant) \<Rightarrow>
          if bubble
          then (case solve_bubble randint g noeud_ancetre noeud_descendant s of
                  (Ok g', s') \<Rightarrow> simplify_bubbles lca randint depth g' s'
                | (Raise e g', s') \<Rightarrow> (Raise e g', s'))
          else (Ok g, s))"

section \<open>Tips\<close>

text \<open>
  The candidates of a tip: for each of the given end nodes the first simple path, if
  there is one; their lengths; and their weights, the average weight for a path of more
  than one edge and the weight of the edge otherwise.
\<close>

definition tip_weights :: "'a graph \<Rightarrow> 'a list list \<Rightarrow> py_error + rat list" where
  "tip_weights g paths =
     collect (map (\<lambda>path. if int (length path) - 1 > 1 then path_average_weight g path
                           else edge_data_weight g path) paths)"

definition first_paths :: "'a list list list \<Rightarrow> 'a list list" where
  "first_paths paths = map hd (filter (\<lambda>path. length path > 0) paths)"

fun solve_entry_tips ::
  "'s randint \<Rightarrow> nat \<Rightarrow> 'a graph \<Rightarrow> 'a list \<Rightarrow> 's \<Rightarrow> 'a outcome \<times> 's" where
  "solve_entry_tips randint 0 g starting_nodes s = (Raise RecursionError g, s)"
| "solve_entry_tips randint (Suc depth) g starting_nodes s =
     (case find (\<lambda>node. length (predecessors g node) > 1) (nodes g) of
        None \<Rightarrow> (Ok g, s)
      | Some node \<Rightarrow>
          (case collect (map (\<lambda>node_start_i. all_simple_paths g node_start_i node)
                             starting_nodes) of
             Inl e \<Rightarrow> (Raise e g, s)
           | Inr all_paths \<Rightarrow>
               (case tip_weights g (first_paths all_paths) of
                  Inl e \<Rightarrow> (Raise e g, s)
                | Inr weights \<Rightarrow>
                    (case select_best_path randint g (first_paths all_paths)
                            (map (\<lambda>path. int (length path) - 1) (first_paths all_paths))
                            weights True False s of
                       (Ok g', s') \<Rightarrow> solve_entry_tips randint depth g' starting_nodes s'
                     | (Raise e g', s') \<Rightarrow> (Raise e g', s')))))"

fun solve_out_tips ::
  "'s randint \<Rightarrow> nat \<Rightarrow> 'a graph \<Rightarrow> 'a list \<Rightarrow> 's \<Rightarrow> 'a outcome \<times> 's" where
  "solve_out_tips randint 0 g ending_nodes s = (Raise RecursionError g, s)"
| "solve_out_tips randint (Suc depth) g ending_nodes s =
     (case find (\<lambda>node. length (successors g node) > 1) (nodes g) of
        None \<Rightarrow> (Ok g, s)
      | Some node \<Rightarrow>
          (case collect (map (\<lambda>node_end_i. all_simple_paths g node node_end_i)
                             ending_nodes) of
             Inl e \<Rightarrow> (Raise e g, s)
           | Inr all_paths \<Rightarrow>
               (case tip_weights g (first_paths all_paths) of
                  Inl e \<Rightarrow> (Raise e g, s)
                | Inr weights \<Rightarrow>
                    (case select_best_path randint g (first_paths all_paths)
                            (map (\<lambda>path. int (length path) - 1) (first_paths all_paths))
                            weights False True s of
                       (Ok g', s') \<Rightarrow> solve_out_tips randint depth g' ending_nodes s'
                     | (Raise e g', s') \<Rightarrow> (Raise e g', s')))))"

section \<open>K-mers, the graph and the contigs\<close>

text \<open>
  \<^verbatim>\<open>cut_kmer\<close>: the substrings \<^verbatim>\<open>read[i : i + kmer_size]\<close> for \<open>i\<close> in
  \<^verbatim>\<open>range(len(read) - kmer_size + 1)\<close>. \<^verbatim>\<open>build_kmer_dict\<close> counts them; the dictionary
  is a list of keys and counts in insertion order. The reads are given as a list: reading
  the file is not modelled.
\<close>

definition cut_kmer :: "string \<Rightarrow> nat \<Rightarrow> string list" where
  "cut_kmer read kmer_size =
     map (\<lambda>i. take kmer_size (drop i read)) [0 ..< length read + 1 - kmer_size]"

fun count_kmer :: "(string \<times> int) list \<Rightarrow> string \<Rightarrow> (string \<times> int) list" where
  "count_kmer [] kmer = [(kmer, 1)]"
| "count_kmer ((k, c) # kmer_dict) kmer =
     (if k = kmer then (k, c + 1) # kmer_dict else (k, c) # count_kmer kmer_dict kmer)"

definition build_kmer_dict :: "string list \<Rightarrow> nat \<Rightarrow> (string \<times> int) list" where
  "build_kmer_dict reads kmer_size =
     fold (\<lambda>sequence kmer_dict. fold (\<lambda>kmer d. count_kmer d kmer) (cut_kmer sequence kmer_size) kmer_dict)
          reads []"

text \<open>\<^verbatim>\<open>build_graph\<close>: one edge per k-mer, from \<^verbatim>\<open>key[:-1]\<close> to \<^verbatim>\<open>key[1:]\<close>.\<close>

definition build_graph :: "(string \<times> int) list \<Rightarrow> string graph" where
  "build_graph kmer_dict =
     fold (\<lambda>(key_i, value_i) G. add_edge G (butlast key_i) (tl key_i) value_i) kmer_dict
          \<lparr>nodes = [], edges = []\<rparr>"

text \<open>
  \<^verbatim>\<open>get_contigs\<close>. The slice \<^verbatim>\<open>j[len(path[0]) - 1:]\<close>: from position
  \<open>len(path[0]) - 1\<close> on; for an empty first label the position is \<open>-1\<close>, the last
  character.
\<close>

definition slice_from :: "string \<Rightarrow> int \<Rightarrow> string" where
  "slice_from j n = (if n < 0 then drop (nat (int (length j) + n)) j else drop (nat n) j)"

definition contig_of_path :: "string list \<Rightarrow> string" where
  "contig_of_path path =
     fold (\<lambda>j sequence_str. sequence_str @ slice_from j (int (length (hd path)) - 1))
          (tl path) (hd path)"

definition get_contigs ::
  "string graph \<Rightarrow> string list \<Rightarrow> string list \<Rightarrow> py_error + (string \<times> nat) list" where
  "get_contigs g starting_nodes ending_nodes =
     (case collect (concat (map (\<lambda>start. map (\<lambda>end. all_simple_paths g start end)
                                              ending_nodes) starting_nodes)) of
        Inl e \<Rightarrow> Inl e
      | Inr paths \<Rightarrow>
          Inr (map (\<lambda>path. (contig_of_path path, length (contig_of_path path)))
                   (concat paths)))"

text \<open>
  The pipeline of \<^verbatim>\<open>main\<close>, from the reads to the contigs, in one run of the
  interpreter: \<open>lca\<close> is the library's lowest common ancestor function as it answers in
  that run, \<open>s\<close> the state of the generator after \<^verbatim>\<open>random.seed(9001)\<close>, \<open>limit\<close> the
  recursion limit. Two runs on the same reads are two applications that may differ in
  \<open>lca\<close>.
\<close>

definition assemble ::
  "string lca \<Rightarrow> 's randint \<Rightarrow> nat \<Rightarrow> string list \<Rightarrow> nat \<Rightarrow> 's
     \<Rightarrow> (py_error + (string \<times> nat) list) \<times> 's" where
  "assemble lca randint limit reads kmer_size s =
     (case simplify_bubbles lca randint limit (build_graph (build_kmer_dict reads kmer_size)) s of
        (Raise e g, s1) \<Rightarrow> (Inl e, s1)
      | (Ok g1, s1) \<Rightarrow>
          (case solve_entry_tips randint limit g1 (get_starting_nodes g1) s1 of
             (Raise e g, s2) \<Rightarrow> (Inl e, s2)
           | (Ok g2, s2) \<Rightarrow>
               (case solve_out_tips randint limit g2 (get_sink_nodes g2) s2 of
                  (Raise e g, s3) \<Rightarrow> (Inl e, s3)
                | (Ok g3, s3) \<Rightarrow>
                    (get_contigs g3 (get_starting_nodes g3) (get_sink_nodes g3), s3))))"

section \<open>Concrete instances of the library's parameters\<close>

text \<open>
  A lowest common ancestor function in the sense of the library's documentation, used to
  run the model on concrete graphs: on a graph with a cycle \<^verbatim>\<open>NetworkXError\<close>, on the
  graph without nodes \<^verbatim>\<open>NetworkXPointlessConcept\<close>, for a node that is not in the graph
  \<^verbatim>\<open>NodeNotFound\<close>; otherwise a common ancestor (a node counts as its own ancestor) none
  of whose successors is a common ancestor, if there is one. Which of several such nodes
  the library returns is not specified; the theorems about \<^verbatim>\<open>simplify_bubbles\<close> hold
  for every function that returns common ancestors in acyclic graphs only
  (\<open>lca_contract\<close>).
\<close>

definition reaches :: "'a graph \<Rightarrow> 'a \<Rightarrow> 'a \<Rightarrow> bool" where
  "reaches g a x =
     (a = x \<or> simple_paths_from (length (nodes g) - 1) g x [a] a \<noteq> [])"

definition is_dag :: "'a graph \<Rightarrow> bool" where
  "is_dag g =
     list_all (\<lambda>e. fst (fst e) \<noteq> snd (fst e) \<and>
                   simple_paths_from (length (nodes g) - 1) g (fst (fst e)) [snd (fst e)]
                     (snd (fst e)) = [])
              (edges g)"

definition lowest_common_ancestor :: "'a lca" where
  "lowest_common_ancestor g node1 node2 =
     (if \<not> is_dag g then Inl NetworkXError
      else if nodes g = [] then Inl NetworkXPointlessConcept
      else if node1 \<notin> set (nodes g) \<or> node2 \<notin> set (nodes g) then Inl NodeNotFound
      else Inr (find (\<lambda>a. reaches g a node1 \<and> reaches g a node2 \<and>
                           list_all (\<lambda>b. \<not> (reaches g b node1 \<and> reaches g b node2))
                                    (successors g a))
                     (nodes g)))"

definition lca_contract :: "'a lca \<Rightarrow> bool" where
  "lca_contract lca =
     (\<forall>g node1 node2.
        lca g node1 node2 \<noteq> Inl RecursionError \<and>
        (\<forall>a. lca g node1 node2 = Inr (Some a) \<longrightarrow>
               is_dag g \<and> reaches g a node1 \<and> reaches g a node2))"

text \<open>
  A second function of the same kind, for the other iteration order: it goes through the
  nodes from the last one to the first. Both return a lowest common ancestor whenever
  there is one.
\<close>

definition is_lowest_common_ancestor :: "'a graph \<Rightarrow> 'a \<Rightarrow> 'a \<Rightarrow> 'a \<Rightarrow> bool" where
  "is_lowest_common_ancestor g a node1 node2 =
     (reaches g a node1 \<and> reaches g a node2 \<and>
      list_all (\<lambda>b. \<not> (reaches g b node1 \<and> reaches g b node2)) (successors g a))"

definition lowest_common_ancestor_rev :: "'a lca" where
  "lowest_common_ancestor_rev g node1 node2 =
     (if \<not> is_dag g then Inl NetworkXError
      else if nodes g = [] then Inl NetworkXPointlessConcept
      else if node1 \<notin> set (nodes g) \<or> node2 \<notin> set (nodes g) then Inl NodeNotFound
      else Inr (find (\<lambda>a. is_lowest_common_ancestor g a node1 node2) (rev (nodes g))))"

text \<open>
  A concrete generator (a linear congruential one) to run the model on concrete inputs.
  The library's Mersenne Twister is not modelled; every theorem below holds for an
  arbitrary generator.
\<close>

definition lcg_randint :: "nat randint" where
  "lcg_randint a b s = (a + int s mod (b - a + 1), (1103515245 * s + 12345) mod 2147483648)"

section \<open>Notions used in the statements\<close>

text \<open>
  The edges of a path are its pairs of consecutive nodes. \<open>without i xs\<close> is the list
  \<open>xs\<close> after \<^verbatim>\<open>xs.pop(i)\<close>. \<open>deleted_nodes\<close> are the nodes \<^verbatim>\<open>remove_paths\<close> hands to
  \<^verbatim>\<open>remove_nodes_from\<close> under its two flags.
\<close>

definition path_edges :: "'a list \<Rightarrow> ('a \<times> 'a) list" where
  "path_edges path = zip path (tl path)"

definition paths_edges :: "'a list list \<Rightarrow> ('a \<times> 'a) set" where
  "paths_edges path_list = (\<Union>path \<in> set path_list. set (path_edges path))"

definition without :: "nat \<Rightarrow> 'b list \<Rightarrow> 'b list" where
  "without i xs = take i xs @ drop (Suc i) xs"

definition deleted_nodes :: "'a list list \<Rightarrow> bool \<Rightarrow> bool \<Rightarrow> 'a list" where
  "deleted_nodes path_list delete_entry_node delete_sink_node =
     (if delete_entry_node then map hd path_list else []) @
     (if delete_sink_node then map last path_list else [])"

text \<open>
  A simple path from \<open>s\<close> to \<open>t\<close>: at least two nodes, the first one \<open>s\<close>, the last one
  \<open>t\<close>, no node twice, each node a successor of the one before.
\<close>

fun is_chain :: "'a graph \<Rightarrow> 'a \<Rightarrow> 'a list \<Rightarrow> bool" where
  "is_chain g u [] = True"
| "is_chain g u (v # q) = (v \<in> set (successors g u) \<and> is_chain g v q)"

definition is_simple_path :: "'a graph \<Rightarrow> 'a \<Rightarrow> 'a \<Rightarrow> 'a list \<Rightarrow> bool" where
  "is_simple_path g s t p =
     (case p of
        [] \<Rightarrow> False
      | x # q \<Rightarrow> x = s \<and> q \<noteq> [] \<and> last q = t \<and> distinct p \<and> is_chain g s q)"

text \<open>
  The state of the scan of \<^verbatim>\<open>simplify_bubbles\<close> has \<open>found\<close> a bubble when, if
  \<^verbatim>\<open>bubble\<close> is set, either \<^verbatim>\<open>noeud_ancetre\<close> is \<^verbatim>\<open>None\<close> or it is the answer of the
  library for two different predecessors of \<^verbatim>\<open>noeud_descendant\<close>. A graph has
  \<open>no_bubble\<close> when the library finds no common ancestor for any two predecessors of any
  node.
\<close>

definition found :: "'a lca \<Rightarrow> 'a graph \<Rightarrow> 'a scan_state \<Rightarrow> bool" where
  "found lca g st =
     (fst st \<longrightarrow>
        fst (snd st) = None \<or>
        (\<exists>a d x y. snd st = (Some a, Some d) \<and> x \<in> set (predecessors g d) \<and>
           y \<in> set (predecessors g d) \<and> x \<noteq> y \<and> lca g x y = Inr (Some a)))"

definition no_bubble :: "'a lca \<Rightarrow> 'a graph \<Rightarrow> bool" where
  "no_bubble lca g =
     (\<forall>node \<in> set (nodes g). \<forall>i j. i < j \<and> j < length (predecessors g node) \<longrightarrow>
        lca g (predecessors g node ! i) (predecessors g node ! j) = Inr None)"

section \<open>Properties of path removal\<close>

lemma degree_zero_iff:
  "degree g n = 0 \<longleftrightarrow> (\<forall>e \<in> set (edges g). fst (fst e) \<noteq> n \<and> snd (fst e) \<noteq> n)"
  by (auto simp: degree_def successors_def predecessors_def filter_empty_conv)

lemma degree_cong: "edges g' = edges g \<Longrightarrow> degree g' n = degree g n"
  by (simp add: degree_def successors_def predecessors_def)

lemma remove_node_isolated:
  "degree g n = 0 \<Longrightarrow> edges (remove_node g n) = edges g"
  by (auto simp: remove_node_def degree_zero_iff filter_id_conv)

lemma nodes_remove_node: "nodes (remove_node g n) = filter (\<lambda>m. m \<noteq> n) (nodes g)"
  using filter_id_conv [of "\<lambda>m. m \<noteq> n" "nodes g"] by (auto simp: remove_node_def)

lemma remove_nodes_from_isolated:
  "\<forall>n \<in> set ns. degree g n = 0 \<Longrightarrow>
     edges (remove_nodes_from g ns) = edges g \<and>
     nodes (remove_nodes_from g ns) = filter (\<lambda>m. m \<notin> set ns) (nodes g)"
proof (induction ns arbitrary: g)
  case Nil
  then show ?case by simp
next
  case (Cons n ns)
  have e: "edges (remove_node g n) = edges g"
    using Cons.prems by (simp add: remove_node_isolated)
  have "\<forall>m \<in> set ns. degree (remove_node g n) m = 0"
    using Cons.prems degree_cong [OF e] by simp
  from Cons.IH [OF this] e
  have "edges (remove_nodes_from g (n # ns)) = edges g"
    and "nodes (remove_nodes_from g (n # ns)) =
         filter (\<lambda>m. m \<notin> set ns) (filter (\<lambda>m. m \<noteq> n) (nodes g))"
    by (simp_all add: nodes_remove_node)
  moreover have "filter (\<lambda>m. m \<notin> set ns) (filter (\<lambda>m. m \<noteq> n) xs) =
      filter (\<lambda>m. m \<notin> set (n # ns)) xs" for xs
    by (induction xs) auto
  ultimately show ?case by simp
qed

lemma edges_remove_node_subset: "set (edges (remove_node g n)) \<subseteq> set (edges g)"
  by (auto simp: remove_node_def)

lemma edges_remove_nodes_from_subset: "set (edges (remove_nodes_from g ns)) \<subseteq> set (edges g)"
proof (induction ns arbitrary: g)
  case Nil
  then show ?case by simp
next
  case (Cons n ns)
  then show ?case using edges_remove_node_subset by fastforce
qed

lemma nodes_remove_nodes_from_subset: "set (nodes (remove_nodes_from g ns)) \<subseteq> set (nodes g)"
proof (induction ns arbitrary: g)
  case Nil
  then show ?case by simp
next
  case (Cons n ns)
  then show ?case by (fastforce simp: nodes_remove_node)
qed

lemma remove_edge_Inr:
  "remove_edge g u v = Inr g' \<Longrightarrow>
     has_edge g u v \<and> nodes g' = nodes g \<and> edges g' = filter (\<lambda>e. fst e \<noteq> (u, v)) (edges g)"
  by (auto simp: remove_edge_def split: if_splits)

lemma remove_path_edges_Ok:
  "remove_path_edges g p = Ok g' \<Longrightarrow>
     nodes g' = nodes g \<and> edges g' = filter (\<lambda>e. fst e \<notin> set (zip p (tl p))) (edges g)"
proof (induction g p arbitrary: g' rule: remove_path_edges.induct)
  case (1 g u v rest)
  from "1.prems" obtain g1 where r: "remove_edge g u v = Inr g1"
    and k: "remove_path_edges g1 (v # rest) = Ok g'"
    by (auto split: sum.splits)
  from "1.IH" [OF r k] remove_edge_Inr [OF r] show ?case
    by (simp add: conj_commute)
qed auto

lemma remove_all_paths_Ok:
  "remove_all_paths g ps = Ok g' \<Longrightarrow>
     nodes g' = nodes g \<and>
     edges g' = filter (\<lambda>e. fst e \<notin> (\<Union>p \<in> set ps. set (zip p (tl p)))) (edges g)"
proof (induction ps arbitrary: g)
  case Nil
  then show ?case by simp
next
  case (Cons p ps)
  from Cons.prems obtain g1 where r: "remove_path_edges g p = Ok g1"
    and k: "remove_all_paths g1 ps = Ok g'"
    by (auto split: outcome.splits)
  from Cons.IH [OF k] remove_path_edges_Ok [OF r] show ?case
    by (simp add: conj_commute)
qed

lemma remove_paths_Ok:
  assumes "remove_paths g path_list de ds = Ok g'"
  obtains g3 where "g' = remove_nodes_from g3 (isolates g3)"
    and "set (edges g3) \<subseteq> set (edges g)" and "set (nodes g3) \<subseteq> set (nodes g)"
proof -
  from assms obtain g1 where g1: "remove_all_paths g path_list = Ok g1"
    by (auto simp: remove_paths_def split: outcome.splits)
  define g2 where "g2 = (if de then remove_nodes_from g1 (map hd path_list) else g1)"
  define g3 where "g3 = (if ds then remove_nodes_from g2 (map last path_list) else g2)"
  from assms g1 have "g' = remove_nodes_from g3 (isolates g3)"
    by (auto simp: remove_paths_def g2_def g3_def Let_def split: if_splits)
  moreover have "set (edges g1) \<subseteq> set (edges g)" "set (nodes g1) \<subseteq> set (nodes g)"
    using remove_all_paths_Ok [OF g1] by auto
  moreover have "set (edges g2) \<subseteq> set (edges g1)" "set (nodes g2) \<subseteq> set (nodes g1)"
    by (auto simp: g2_def dest: subsetD [OF nodes_remove_nodes_from_subset]
        subsetD [OF edges_remove_nodes_from_subset])
  moreover have "set (edges g3) \<subseteq> set (edges g2)" "set (nodes g3) \<subseteq> set (nodes g2)"
    by (auto simp: g3_def dest: subsetD [OF nodes_remove_nodes_from_subset]
        subsetD [OF edges_remove_nodes_from_subset])
  ultimately show thesis using that by blast
qed

lemma edges_remove_node_wf:
  assumes "wf_graph g"
  shows "edges (remove_node g n) = filter (\<lambda>e. fst (fst e) \<noteq> n \<and> snd (fst e) \<noteq> n) (edges g)"
proof (cases "n \<in> set (nodes g)")
  case True
  then show ?thesis by (simp add: remove_node_def)
next
  case False
  with assms have "\<forall>e \<in> set (edges g). fst (fst e) \<noteq> n \<and> snd (fst e) \<noteq> n"
    by (auto simp: wf_graph_def)
  then have "filter (\<lambda>e. fst (fst e) \<noteq> n \<and> snd (fst e) \<noteq> n) (edges g) = edges g"
    by (simp add: filter_id_conv)
  with False show ?thesis by (simp add: remove_node_def)
qed

lemma wf_graph_filter:
  assumes "wf_graph g"
    and "nodes g' = filter Q (nodes g)"
    and "edges g' = filter P (edges g)"
    and "\<And>e. e \<in> set (edges g) \<Longrightarrow> P e \<Longrightarrow> Q (fst (fst e)) \<and> Q (snd (fst e))"
  shows "wf_graph g'"
  using assms by (auto simp: wf_graph_def distinct_map_filter)

lemma wf_remove_node:
  assumes "wf_graph g"
  shows "wf_graph (remove_node g n)"
  by (rule wf_graph_filter [OF assms nodes_remove_node edges_remove_node_wf [OF assms]]) simp

lemma remove_nodes_from_wf:
  "wf_graph g \<Longrightarrow>
     wf_graph (remove_nodes_from g ns) \<and>
     nodes (remove_nodes_from g ns) = filter (\<lambda>m. m \<notin> set ns) (nodes g) \<and>
     edges (remove_nodes_from g ns) =
       filter (\<lambda>e. fst (fst e) \<notin> set ns \<and> snd (fst e) \<notin> set ns) (edges g)"
proof (induction ns arbitrary: g)
  case Nil
  then show ?case by simp
next
  case (Cons n ns)
  have w: "wf_graph (remove_node g n)" using Cons.prems by (rule wf_remove_node)
  note ih = Cons.IH [OF w]
  have n: "nodes (remove_nodes_from g (n # ns)) = filter (\<lambda>m. m \<notin> set (n # ns)) (nodes g)"
  proof -
    have "nodes (remove_nodes_from g (n # ns)) =
        filter (\<lambda>m. m \<notin> set ns) (filter (\<lambda>m. m \<noteq> n) (nodes g))"
      using ih by (simp add: nodes_remove_node)
    also have "\<dots> = filter (\<lambda>m. m \<notin> set (n # ns)) (nodes g)"
      unfolding filter_filter by (rule filter_cong) auto
    finally show ?thesis .
  qed
  have e: "edges (remove_nodes_from g (n # ns)) =
       filter (\<lambda>e. fst (fst e) \<notin> set (n # ns) \<and> snd (fst e) \<notin> set (n # ns)) (edges g)"
  proof -
    have "edges (remove_nodes_from g (n # ns)) =
        filter (\<lambda>e. fst (fst e) \<notin> set ns \<and> snd (fst e) \<notin> set ns)
          (filter (\<lambda>e. fst (fst e) \<noteq> n \<and> snd (fst e) \<noteq> n) (edges g))"
      using ih by (simp add: edges_remove_node_wf [OF Cons.prems])
    also have "\<dots> = filter (\<lambda>e. fst (fst e) \<notin> set (n # ns) \<and> snd (fst e) \<notin> set (n # ns)) (edges g)"
      unfolding filter_filter by (rule filter_cong) auto
    finally show ?thesis .
  qed
  from ih n e show ?case by simp
qed

lemma remove_nodes_from_append:
  "remove_nodes_from g (xs @ ys) = remove_nodes_from (remove_nodes_from g xs) ys"
  by (induction xs arbitrary: g) simp_all

lemma remove_paths_Ok_cases:
  assumes "remove_paths g path_list de ds = Ok g'"
  obtains g1 where "remove_all_paths g path_list = Ok g1"
    and "g' = remove_nodes_from (remove_nodes_from g1 (deleted_nodes path_list de ds))
                (isolates (remove_nodes_from g1 (deleted_nodes path_list de ds)))"
proof -
  from assms obtain g1 where g1: "remove_all_paths g path_list = Ok g1"
    by (auto simp: remove_paths_def split: outcome.splits)
  have "g' = remove_nodes_from (remove_nodes_from g1 (deleted_nodes path_list de ds))
                (isolates (remove_nodes_from g1 (deleted_nodes path_list de ds)))"
  proof (cases de; cases ds)
    assume "de" "ds"
    with assms g1 show ?thesis
      by (simp add: remove_paths_def deleted_nodes_def remove_nodes_from_append Let_def split: if_splits)
  next
    assume "de" "\<not> ds"
    with assms g1 show ?thesis
      by (simp add: remove_paths_def deleted_nodes_def Let_def split: if_splits)
  next
    assume "\<not> de" "ds"
    with assms g1 show ?thesis
      by (simp add: remove_paths_def deleted_nodes_def Let_def split: if_splits)
  next
    assume "\<not> de" "\<not> ds"
    with assms g1 show ?thesis
      by (simp add: remove_paths_def deleted_nodes_def Let_def)
  qed
  with g1 show thesis by (rule that)
qed

lemma remove_paths_result:
  assumes wf: "wf_graph g"
    and ok: "remove_paths g path_list de ds = Ok g'"
  shows "wf_graph g'"
    and "edges g' =
      filter (\<lambda>e. fst e \<notin> paths_edges path_list \<and>
                  fst (fst e) \<notin> set (deleted_nodes path_list de ds) \<and>
                  snd (fst e) \<notin> set (deleted_nodes path_list de ds)) (edges g)"
    and "nodes g' =
      filter (\<lambda>n. n \<notin> set (deleted_nodes path_list de ds) \<and> degree g' n \<noteq> 0) (nodes g)"
proof -
  let ?D = "deleted_nodes path_list de ds"
  let ?LE = "paths_edges path_list"
  from ok obtain g1 where g1: "remove_all_paths g path_list = Ok g1"
    and g': "g' = remove_nodes_from (remove_nodes_from g1 ?D) (isolates (remove_nodes_from g1 ?D))"
    by (rule remove_paths_Ok_cases)
  define g3 where "g3 = remove_nodes_from g1 ?D"
  from remove_all_paths_Ok [OF g1]
  have n1: "nodes g1 = nodes g" and e1: "edges g1 = filter (\<lambda>e. fst e \<notin> ?LE) (edges g)"
    by (simp_all add: path_edges_def paths_edges_def)
  have w1: "wf_graph g1"
    by (rule wf_graph_filter [OF wf, where Q = "\<lambda>n. True" and P = "\<lambda>e. fst e \<notin> ?LE"])
       (use n1 e1 wf in \<open>auto simp: wf_graph_def\<close>)
  from remove_nodes_from_wf [OF w1, of ?D]
  have w3: "wf_graph g3" and n3: "nodes g3 = filter (\<lambda>m. m \<notin> set ?D) (nodes g1)"
    and e3: "edges g3 = filter (\<lambda>e. fst (fst e) \<notin> set ?D \<and> snd (fst e) \<notin> set ?D) (edges g1)"
    by (simp_all add: g3_def)
  have iso: "\<forall>n \<in> set (isolates g3). degree g3 n = 0" by (simp add: isolates_def)
  from remove_nodes_from_isolated [OF iso] g'
  have e': "edges g' = edges g3"
    and n': "nodes g' = filter (\<lambda>m. m \<notin> set (isolates g3)) (nodes g3)"
    by (simp_all add: g3_def)
  have d: "degree g' n = degree g3 n" for n by (rule degree_cong [OF e'])
  show "edges g' =
      filter (\<lambda>e. fst e \<notin> ?LE \<and> fst (fst e) \<notin> set ?D \<and> snd (fst e) \<notin> set ?D) (edges g)"
    unfolding e' e3 e1 filter_filter by (rule filter_cong) auto
  have "nodes g' = filter (\<lambda>m. m \<notin> set (isolates g3)) (filter (\<lambda>m. m \<notin> set ?D) (nodes g))"
    using n' n3 n1 by simp
  also have "\<dots> = filter (\<lambda>n. n \<notin> set ?D \<and> degree g' n \<noteq> 0) (nodes g)"
    unfolding filter_filter
  proof (rule filter_cong [OF refl])
    fix x assume "x \<in> set (nodes g)"
    then have "x \<notin> set ?D \<Longrightarrow> x \<in> set (nodes g3)" using n3 n1 by simp
    then show "(x \<notin> set ?D \<and> x \<notin> set (isolates g3)) = (x \<notin> set ?D \<and> degree g' x \<noteq> 0)"
      by (auto simp: isolates_def d)
  qed
  finally show "nodes g' = filter (\<lambda>n. n \<notin> set ?D \<and> degree g' n \<noteq> 0) (nodes g)" .
  have e'': "edges g' = filter (\<lambda>e. True) (edges g3)" using e' by simp
  show "wf_graph g'"
  proof (rule wf_graph_filter [OF w3 n' e''])
    fix e assume "e \<in> set (edges g3)"
    then have "degree g3 (fst (fst e)) \<noteq> 0" "degree g3 (snd (fst e)) \<noteq> 0"
      by (auto simp: degree_zero_iff)
    then show "fst (fst e) \<notin> set (isolates g3) \<and> snd (fst e) \<notin> set (isolates g3)"
      by (simp add: isolates_def)
  qed
qed

text \<open>
  Claim C9. When \<^verbatim>\<open>remove_paths\<close> returns, no node of the returned graph has total
  degree 0, and every node that had degree 0 before the call is gone, whether or not it
  lies on one of the given paths: the isolated nodes are those of the whole graph.
\<close>

theorem remove_paths_deletes_every_isolated_node:
  "remove_paths g path_list delete_entry_node delete_sink_node = Ok g' \<Longrightarrow>
     (\<forall>n \<in> set (nodes g'). degree g' n \<noteq> 0) \<and>
     (\<forall>n \<in> set (nodes g). degree g n = 0 \<longrightarrow> n \<notin> set (nodes g'))"
proof -
  assume a: "remove_paths g path_list delete_entry_node delete_sink_node = Ok g'"
  from a obtain g3 where g': "g' = remove_nodes_from g3 (isolates g3)"
    and sub: "set (edges g3) \<subseteq> set (edges g)"
    by (rule remove_paths_Ok)
  have iso: "\<forall>n \<in> set (isolates g3). degree g3 n = 0"
    by (simp add: isolates_def)
  note r = remove_nodes_from_isolated [OF iso]
  have d: "degree g' n = degree g3 n" for n
    using r by (intro degree_cong) (simp add: g')
  have "nodes g' = filter (\<lambda>m. m \<notin> set (isolates g3)) (nodes g3)"
    using r by (simp add: g')
  also have "\<dots> = filter (\<lambda>m. degree g3 m \<noteq> 0) (nodes g3)"
    by (rule filter_cong) (auto simp: isolates_def)
  finally have n: "nodes g' = filter (\<lambda>m. degree g3 m \<noteq> 0) (nodes g3)" .
  have "degree g3 m = 0" if "degree g m = 0" for m
    using that sub by (auto simp: degree_zero_iff)
  with d n show ?thesis by auto
qed

section \<open>Properties of the selection\<close>

lemma py_max_eq:
  assumes "xs \<noteq> []"
  shows "py_max xs = Max (set xs)"
proof (cases xs)
  case Nil
  with assms show ?thesis by simp
next
  case (Cons a list)
  then show ?thesis using Max.set_eq_fold [of a list] by (simp add: py_max_def)
qed

lemma index_props:
  "x \<in> set xs \<Longrightarrow> index xs x < length xs \<and> xs ! index xs x = x \<and> (\<forall>j < index xs x. xs ! j \<noteq> x)"
proof (induction xs)
  case Nil
  then show ?case by simp
next
  case (Cons y ys)
  show ?case
  proof (cases "y = x")
    case True
    then show ?thesis by simp
  next
    case False
    with Cons.prems have "x \<in> set ys" by simp
    from Cons.IH [OF this] False show ?thesis
      by (auto simp: nth_Cons split: nat.splits)
  qed
qed

lemma index_max:
  fixes xs :: "'b::linorder list"
  assumes "xs \<noteq> []"
  shows "index xs (py_max xs) < length xs \<and> xs ! index xs (py_max xs) = Max (set xs) \<and>
         (\<forall>j < index xs (py_max xs). xs ! j < Max (set xs))"
proof -
  have m: "py_max xs = Max (set xs)" using assms by (rule py_max_eq)
  have "Max (set xs) \<in> set xs" using assms by (intro Max_in) auto
  from index_props [OF this] have p: "index xs (Max (set xs)) < length xs"
    "xs ! index xs (Max (set xs)) = Max (set xs)"
    "\<forall>j < index xs (Max (set xs)). xs ! j \<noteq> Max (set xs)" by auto
  have "xs ! j < Max (set xs)" if "j < index xs (Max (set xs))" for j
  proof -
    have "j < length xs" using that p(1) by simp
    then have "xs ! j \<le> Max (set xs)" by (intro Max_ge) auto
    with p(3) that show ?thesis by (simp add: less_le)
  qed
  with p m show ?thesis by simp
qed

lemma variance_Inr:
  "2 \<le> length xs \<Longrightarrow> \<exists>v. variance xs = Inr v"
  by (simp add: variance_def Let_def)

lemma sum_sq_pos_iff:
  fixes xs :: "rat list"
  shows "0 < sum_list (map (\<lambda>x. (x - m) * (x - m)) xs) \<longleftrightarrow> (\<exists>x \<in> set xs. x \<noteq> m)"
proof -
  let ?ys = "map (\<lambda>x. (x - m) * (x - m)) xs"
  have nn: "\<And>y. y \<in> set ?ys \<Longrightarrow> 0 \<le> y" by auto
  have "0 \<le> sum_list ?ys" by (rule sum_list_nonneg) (use nn in auto)
  moreover have "sum_list ?ys = 0 \<longleftrightarrow> (\<forall>y \<in> set ?ys. y = 0)"
    by (rule sum_list_nonneg_eq_0_iff) (use nn in auto)
  ultimately have "0 < sum_list ?ys \<longleftrightarrow> \<not> (\<forall>y \<in> set ?ys. y = 0)"
    by (simp add: less_le)
  also have "\<dots> \<longleftrightarrow> (\<exists>x \<in> set xs. x \<noteq> m)" by auto
  finally show ?thesis .
qed

lemma pos_divide_pos_iff: "0 < (b::rat) \<Longrightarrow> (0 < a / b) = (0 < a)"
  by (simp add: zero_less_divide_iff)

lemma mean_const:
  fixes c :: rat
  assumes "\<forall>x \<in> set xs. x = c" "xs \<noteq> []"
  shows "sum_list xs / of_nat (length xs) = c"
proof -
  have "sum_list xs = of_nat (length xs) * c" using assms(1)
    by (induction xs) (auto simp: algebra_simps)
  with assms(2) show ?thesis by simp
qed

lemma stdev_positive_iff:
  assumes "2 \<le> length xs"
  shows "stdev_positive xs = Inr (\<exists>x \<in> set xs. x \<noteq> hd xs)"
proof -
  let ?m = "sum_list xs / of_nat (length xs)"
  from assms have ne: "xs \<noteq> []" by auto
  have pos: "(0::rat) < of_nat (length xs - 1)" using assms by simp
  have "(\<exists>x \<in> set xs. x \<noteq> ?m) \<longleftrightarrow> (\<exists>x \<in> set xs. x \<noteq> hd xs)"
  proof
    assume "\<exists>x \<in> set xs. x \<noteq> ?m"
    show "\<exists>x \<in> set xs. x \<noteq> hd xs"
    proof (rule ccontr)
      assume "\<not> (\<exists>x \<in> set xs. x \<noteq> hd xs)"
      then have a: "\<forall>x \<in> set xs. x = hd xs" by simp
      from mean_const [OF a ne] have "?m = hd xs" .
      with a \<open>\<exists>x \<in> set xs. x \<noteq> ?m\<close> show False by simp
    qed
  next
    assume a: "\<exists>x \<in> set xs. x \<noteq> hd xs"
    show "\<exists>x \<in> set xs. x \<noteq> ?m"
    proof (cases "hd xs = ?m")
      case True
      with a show ?thesis by auto
    next
      case False
      moreover have "hd xs \<in> set xs" using ne by simp
      ultimately show ?thesis by blast
    qed
  qed
  then have s: "0 < sum_list (map (\<lambda>x. (x - ?m) * (x - ?m)) xs) \<longleftrightarrow> (\<exists>x \<in> set xs. x \<noteq> hd xs)"
    using sum_sq_pos_iff [of ?m xs] by simp
  have "0 < sum_list (map (\<lambda>x. (x - ?m) * (x - ?m)) xs) / of_nat (length xs - 1)
      \<longleftrightarrow> 0 < sum_list (map (\<lambda>x. (x - ?m) * (x - ?m)) xs)"
    using pos by (rule pos_divide_pos_iff)
  with s have "0 < sum_list (map (\<lambda>x. (x - ?m) * (x - ?m)) xs) / of_nat (length xs - 1)
      \<longleftrightarrow> (\<exists>x \<in> set xs. x \<noteq> hd xs)" by simp
  moreover have "variance xs =
      Inr (sum_list (map (\<lambda>x. (x - ?m) * (x - ?m)) xs) / of_nat (length xs - 1))"
    using assms by (simp add: variance_def Let_def)
  ultimately show ?thesis by (simp add: stdev_positive_def)
qed

lemma pop_in_range:
  "i < length xs \<Longrightarrow> pop xs (int i) = Inr (take i xs @ drop (Suc i) xs)"
  by (simp add: pop_def)

lemma pop_empty: "pop [] i = Inl IndexError"
  by (simp add: pop_def)

text \<open>
  Claim C10. Only the one-path case is short-circuited. With an empty path list the call
  raises and the graph is as it was; when the list of weights is empty as well, the
  exception is the \<^verbatim>\<open>StatisticsError\<close> of the standard deviation of no data.
\<close>

theorem select_best_path_empty_path_list:
  "(weight_avg_list = [] \<longrightarrow>
      select_best_path randint g [] path_length weight_avg_list de ds s
        = (Raise StatisticsError g, s)) \<and>
   (\<exists>e s'. select_best_path randint g [] path_length weight_avg_list de ds s = (Raise e g, s'))"
proof
  show "weight_avg_list = [] \<longrightarrow>
      select_best_path randint g [] path_length weight_avg_list de ds s
        = (Raise StatisticsError g, s)"
    by (simp add: select_best_path_def selected_path_index_def stdev_positive_def variance_def)
next
  show "\<exists>e s'. select_best_path randint g [] path_length weight_avg_list de ds s = (Raise e g, s')"
  proof (cases "selected_path_index randint (length ([]::'a list list)) path_length weight_avg_list s")
    case (Inl e)
    then show ?thesis by (simp add: select_best_path_def)
  next
    case (Inr r)
    then show ?thesis by (cases r) (simp add: select_best_path_def pop_empty)
  qed
qed


lemma stdev_positive_Inr:
  "2 \<le> length xs \<Longrightarrow> \<exists>b. stdev_positive xs = Inr b"
  by (simp add: stdev_positive_iff)

text \<open>
  Claim C1. One path: the graph is returned unchanged. Two or more paths, with their
  lengths and weights: an index is selected and the paths left after popping it are
  removed. If the spread of the weights is positive the index is the first one of the
  greatest weight; otherwise, if the spread of the lengths is positive, the first one of
  the greatest length; otherwise it is the number drawn by \<^verbatim>\<open>randint(0, n - 1)\<close>. With
  weights 5, 5, 1 and lengths 3, 3, 3 the index is 0.
\<close>

theorem select_best_path_selection_policy:
  assumes "2 \<le> length path_list"
    and "length path_length = length path_list"
    and "length weight_avg_list = length path_list"
  shows "select_best_path randint g [p] lengths1 weights1 de ds s = (Ok g, s) \<and>
    (\<exists>i s'. selected_path_index randint (length path_list) path_length weight_avg_list s
              = Inr (i, s') \<and>
       select_best_path randint g path_list path_length weight_avg_list de ds s
         = (case pop path_list i of
              Inl e \<Rightarrow> (Raise e g, s')
            | Inr losers \<Rightarrow> (remove_paths g losers de ds, s')) \<and>
       (stdev_positive weight_avg_list = Inr True \<longrightarrow>
          s' = s \<and> 0 \<le> i \<and> nat i < length path_list \<and>
          weight_avg_list ! nat i = Max (set weight_avg_list) \<and>
          (\<forall>j < nat i. weight_avg_list ! j < Max (set weight_avg_list)) \<and>
          pop path_list i = Inr (take (nat i) path_list @ drop (Suc (nat i)) path_list)) \<and>
       (stdev_positive weight_avg_list = Inr False \<and>
        stdev_positive (map of_int path_length) = Inr True \<longrightarrow>
          s' = s \<and> 0 \<le> i \<and> nat i < length path_list \<and>
          path_length ! nat i = Max (set path_length) \<and>
          (\<forall>j < nat i. path_length ! j < Max (set path_length)) \<and>
          pop path_list i = Inr (take (nat i) path_list @ drop (Suc (nat i)) path_list)) \<and>
       (stdev_positive weight_avg_list = Inr False \<and>
        stdev_positive (map of_int path_length) = Inr False \<longrightarrow>
          (i, s') = randint 0 (int (length path_list) - 1) s)) \<and>
    selected_path_index randint 3 [3, 3, 3] [5, 5, 1] s = Inr (0, s)"
proof (intro conjI)
  show "select_best_path randint g [p] lengths1 weights1 de ds s = (Ok g, s)"
    by (simp add: select_best_path_def)
next
  have "stdev_positive [5, 5, 1] = Inr True"
    by (simp add: stdev_positive_iff)
  moreover have "\<exists>b. stdev_positive (map of_int [3, 3, 3]) = Inr b"
    by (rule stdev_positive_Inr) simp
  ultimately show "selected_path_index randint 3 [3, 3, 3] [5, 5, 1] s = Inr (0, s)"
    by (auto simp: selected_path_index_def py_max_def)
next
  let ?n = "length path_list"
  from assms obtain bw where bw: "stdev_positive weight_avg_list = Inr bw"
    using stdev_positive_Inr [of weight_avg_list] by auto
  from assms obtain bl where bl: "stdev_positive (map of_int path_length) = Inr bl"
    using stdev_positive_Inr [of "map of_int path_length"] by auto
  from assms have wne: "weight_avg_list \<noteq> []" and lne: "path_length \<noteq> []" by auto
  have not1: "length path_list \<noteq> 1" using assms by simp
  have sel: "select_best_path randint g path_list path_length weight_avg_list de ds s
         = (case pop path_list i of
              Inl e \<Rightarrow> (Raise e g, s')
            | Inr losers \<Rightarrow> (remove_paths g losers de ds, s'))"
    if "selected_path_index randint ?n path_length weight_avg_list s = Inr (i, s')" for i s'
    using that not1 by (simp add: select_best_path_def)
  show "\<exists>i s'. selected_path_index randint ?n path_length weight_avg_list s = Inr (i, s') \<and>
       select_best_path randint g path_list path_length weight_avg_list de ds s
         = (case pop path_list i of
              Inl e \<Rightarrow> (Raise e g, s')
            | Inr losers \<Rightarrow> (remove_paths g losers de ds, s')) \<and>
       (stdev_positive weight_avg_list = Inr True \<longrightarrow>
          s' = s \<and> 0 \<le> i \<and> nat i < length path_list \<and>
          weight_avg_list ! nat i = Max (set weight_avg_list) \<and>
          (\<forall>j < nat i. weight_avg_list ! j < Max (set weight_avg_list)) \<and>
          pop path_list i = Inr (take (nat i) path_list @ drop (Suc (nat i)) path_list)) \<and>
       (stdev_positive weight_avg_list = Inr False \<and>
        stdev_positive (map of_int path_length) = Inr True \<longrightarrow>
          s' = s \<and> 0 \<le> i \<and> nat i < length path_list \<and>
          path_length ! nat i = Max (set path_length) \<and>
          (\<forall>j < nat i. path_length ! j < Max (set path_length)) \<and>
          pop path_list i = Inr (take (nat i) path_list @ drop (Suc (nat i)) path_list)) \<and>
       (stdev_positive weight_avg_list = Inr False \<and>
        stdev_positive (map of_int path_length) = Inr False \<longrightarrow>
          (i, s') = randint 0 (int (length path_list) - 1) s)"
  proof (cases bw)
    case True
    let ?i = "index weight_avg_list (py_max weight_avg_list)"
    have i: "selected_path_index randint ?n path_length weight_avg_list s = Inr (int ?i, s)"
      using bw bl True by (simp add: selected_path_index_def)
    from index_max [OF wne] assms have p: "?i < length path_list"
      "weight_avg_list ! ?i = Max (set weight_avg_list)"
      "\<forall>j < ?i. weight_avg_list ! j < Max (set weight_avg_list)" by auto
    from p(1) have "pop path_list (int ?i) = Inr (take ?i path_list @ drop (Suc ?i) path_list)"
      by (rule pop_in_range)
    with i sel [OF i] p bw True show ?thesis
      by (intro exI [of _ "int ?i"] exI [of _ s]) simp
  next
    case False
    note bwF = False
    show ?thesis
    proof (cases bl)
      case True
      let ?i = "index path_length (py_max path_length)"
      have i: "selected_path_index randint ?n path_length weight_avg_list s = Inr (int ?i, s)"
        using bw bl True bwF by (simp add: selected_path_index_def)
      from index_max [OF lne] assms have p: "?i < length path_list"
        "path_length ! ?i = Max (set path_length)"
        "\<forall>j < ?i. path_length ! j < Max (set path_length)" by auto
      from p(1) have "pop path_list (int ?i) = Inr (take ?i path_list @ drop (Suc ?i) path_list)"
        by (rule pop_in_range)
      with i sel [OF i] p bw bl True bwF show ?thesis
        by (intro exI [of _ "int ?i"] exI [of _ s]) simp
    next
      case False
      obtain i s' where r: "randint 0 (int ?n - 1) s = (i, s')" by (cases "randint 0 (int ?n - 1) s")
      have i: "selected_path_index randint ?n path_length weight_avg_list s = Inr (i, s')"
        using bw bl False bwF r assms(1) by (auto simp: selected_path_index_def py_randint_def)
      with sel [OF i] bw bl False bwF r show ?thesis
        by (intro exI [of _ i] exI [of _ s']) simp
    qed
  qed
qed


theorem select_best_path_selection_policy_witness:
  "selected_path_index lcg_randint 3 [3, 3, 3] [5, 5, 1] (7::nat) = Inr (0, 7) \<and>
   (\<exists>i s'. selected_path_index lcg_randint (length [[1::nat, 2, 4], [1, 3, 4]]) [2, 2] [1, 6] (7::nat)
       = Inr (i, s') \<and> nat i = 1) \<and>
   (\<exists>i s'. selected_path_index lcg_randint (length [[1::nat, 4], [1, 3, 4]]) [1, 2] [6, 6] (7::nat)
       = Inr (i, s') \<and> nat i = 1) \<and>
   (\<exists>i s'. selected_path_index lcg_randint (length [[1::nat, 2, 4], [1, 3, 4]]) [2, 2] [6, 6] (7::nat)
       = Inr (i, s') \<and> (i, s') = lcg_randint 0 1 7)"
proof -
  have a: "stdev_positive [1, 6] = Inr True" "stdev_positive [6, 6] = Inr False"
    "stdev_positive (map of_int [1, 2]) = Inr True" "stdev_positive (map of_int [2, 2]) = Inr False"
    by (simp_all add: stdev_positive_iff)
  note t = select_best_path_selection_policy [where randint = lcg_randint and s = "7::nat"
      and g = "\<lparr>nodes = [], edges = []\<rparr>" and p = "[]" and ?lengths1.0 = "[]"
      and ?weights1.0 = "[]" and de = False and ds = False]
  from t [of "[[1::nat, 2, 4], [1, 3, 4]]" "[2, 2]" "[1, 6]"] a
  have 1: "\<exists>i s'. selected_path_index lcg_randint (length [[1::nat, 2, 4], [1, 3, 4]]) [2, 2] [1, 6] (7::nat)
       = Inr (i, s') \<and> nat i = 1"
    by (auto simp: selected_path_index_def py_max_def)
  from t [of "[[1::nat, 4], [1, 3, 4]]" "[1, 2]" "[6, 6]"] a
  have 2: "\<exists>i s'. selected_path_index lcg_randint (length [[1::nat, 4], [1, 3, 4]]) [1, 2] [6, 6] (7::nat)
       = Inr (i, s') \<and> nat i = 1"
    by (auto simp: selected_path_index_def py_max_def)
  from t [of "[[1::nat, 2, 4], [1, 3, 4]]" "[2, 2]" "[6, 6]"] a
  have 3: "\<exists>i s'. selected_path_index lcg_randint (length [[1::nat, 2, 4], [1, 3, 4]]) [2, 2] [6, 6] (7::nat)
       = Inr (i, s') \<and> (i, s') = lcg_randint 0 1 7"
    by auto
  from t [of "[[1::nat, 2, 4], [1, 3, 4]]" "[2, 2]" "[6, 6]"]
  have 0: "selected_path_index lcg_randint 3 [3, 3, 3] [5, 5, 1] (7::nat) = Inr (0, 7)" by simp
  from 0 1 2 3 show ?thesis by blast
qed

theorem select_best_path_empty_path_list_witness:
  "select_best_path lcg_randint \<lparr>nodes = [1::nat, 2], edges = [((1, 2), 3)]\<rparr> [] [] [] False False (7::nat)
     = (Raise StatisticsError \<lparr>nodes = [1, 2], edges = [((1, 2), 3)]\<rparr>, 7)"
  using select_best_path_empty_path_list [of "[]" lcg_randint
      "\<lparr>nodes = [1::nat, 2], edges = [((1, 2), 3)]\<rparr>" "[]" False False "7::nat"]
  by simp

theorem remove_paths_deletes_every_isolated_node_witness:
  "remove_paths \<lparr>nodes = [1::nat, 2, 3, 4, 5], edges = [((1, 2), 1), ((2, 4), 1)]\<rparr> [[1, 2]] False False
     = Ok \<lparr>nodes = [2, 4], edges = [((2, 4), 1)]\<rparr> \<and>
   degree \<lparr>nodes = [2::nat, 4], edges = [((2, 4), 1)]\<rparr> 2 \<noteq> 0 \<and>
   degree \<lparr>nodes = [2::nat, 4], edges = [((2, 4), 1)]\<rparr> 4 \<noteq> 0 \<and>
   degree \<lparr>nodes = [1::nat, 2, 3, 4, 5], edges = [((1, 2), 1), ((2, 4), 1)]\<rparr> 5 = 0 \<and>
   5 \<notin> set (nodes \<lparr>nodes = [2::nat, 4], edges = [((2, 4), 1)]\<rparr>)"
proof -
  have h: "remove_paths \<lparr>nodes = [1::nat, 2, 3, 4, 5], edges = [((1, 2), 1), ((2, 4), 1)]\<rparr>
      [[1, 2]] False False = Ok \<lparr>nodes = [2, 4], edges = [((2, 4), 1)]\<rparr>"
    by (simp add: remove_paths_def remove_edge_def has_edge_def isolates_def degree_def
        successors_def predecessors_def remove_node_def)
  have d: "degree \<lparr>nodes = [1::nat, 2, 3, 4, 5], edges = [((1, 2), 1), ((2, 4), 1)]\<rparr> 5 = 0"
    by (simp add: degree_def successors_def predecessors_def)
  from remove_paths_deletes_every_isolated_node [OF h] h d show ?thesis by simp
qed

section \<open>Running the model on concrete graphs\<close>

lemmas graph_defs = has_edge_def successors_def predecessors_def degree_def isolates_def
  remove_edge_def remove_node_def remove_paths_def all_simple_paths_def
  subgraph_edges_def path_average_weight_def mean_def edge_data_weight_def
  tip_weights_def first_paths_def select_best_path_def selected_path_index_def
  stdev_positive_def variance_def py_max_def pop_def py_randint_def

text \<open>
  Claim C4. The path 1, 2, 3 has two edges, of weight 1 each, so the mean of the weights
  along the path is 1. The graph has the edge from 1 to 3 as well, of weight 10; it joins
  two nodes of the path, so it is an edge of the induced subgraph, and
  \<^verbatim>\<open>path_average_weight\<close> returns 4.
\<close>

theorem path_average_weight_counts_chord:
  "path_average_weight
     \<lparr>nodes = [1::nat, 2, 3], edges = [((1, 2), 1), ((2, 3), 1), ((1, 3), 10)]\<rparr> [1, 2, 3]
   = Inr 4 \<and>
   mean [1, 1] = Inr 1"
  by (simp add: graph_defs)

lemma solve_entry_tips_single_candidate:
  "solve_entry_tips randint depth
     \<lparr>nodes = [1::nat, 2, 3, 4], edges = [((1, 2), 5), ((1, 3), 1), ((2, 4), 5), ((3, 4), 1)]\<rparr>
     [1] s
   = (Raise RecursionError
     \<lparr>nodes = [1::nat, 2, 3, 4], edges = [((1, 2), 5), ((1, 3), 1), ((2, 4), 5), ((3, 4), 1)]\<rparr>, s)"
proof (induction depth)
  case 0
  show ?case by simp
next
  case (Suc depth)
  then show ?case by (simp add: graph_defs)
qed

lemma solve_out_tips_single_candidate:
  "solve_out_tips randint depth
     \<lparr>nodes = [1::nat, 2, 3, 4], edges = [((1, 2), 5), ((1, 3), 1), ((2, 4), 5), ((3, 4), 1)]\<rparr>
     [4] s
   = (Raise RecursionError
     \<lparr>nodes = [1::nat, 2, 3, 4], edges = [((1, 2), 5), ((1, 3), 1), ((2, 4), 5), ((3, 4), 1)]\<rparr>, s)"
proof (induction depth)
  case 0
  show ?case by simp
next
  case (Suc depth)
  then show ?case by (simp add: graph_defs)
qed

lemma assemble_stale_starting_node:
  "assemble lowest_common_ancestor lcg_randint 1000 [''ACGT'', ''ACGT'', ''TCG'', ''AGT''] 3
     (9001::nat) = (Inl NodeNotFound, 9001)"
  by code_simp

text \<open>
  Claim C5. The graph of the reads ACGT, ACGT, TCG and AGT for k = 3 has the sources AC,
  TC and AG; CG and GT have two predecessors each. \<^verbatim>\<open>solve_entry_tips\<close> resolves CG and
  deletes the losing source TC; the recursive call is given the same starting nodes, and
  at GT \<^verbatim>\<open>all_simple_paths\<close> raises \<^verbatim>\<open>NodeNotFound\<close> for TC: no graph is returned, whatever
  the recursion limit. On the second graph, with the one starting node 1, the node 4 has
  two predecessors and one candidate path; the graph is returned unchanged by the
  selection and the function calls itself on it again, until the recursion limit.
\<close>

theorem solve_entry_tips_fails:
  "solve_entry_tips randint (Suc (Suc depth))
     \<lparr>nodes = [''AC'', ''CG'', ''GT'', ''TC'', ''AG''],
      edges = [((''AC'', ''CG''), 2), ((''CG'', ''GT''), 2), ((''TC'', ''CG''), 1),
               ((''AG'', ''GT''), 1)]\<rparr>
     [''AC'', ''TC'', ''AG''] s
   = (Raise NodeNotFound
        \<lparr>nodes = [''AC'', ''CG'', ''GT'', ''AG''],
         edges = [((''AC'', ''CG''), 2), ((''CG'', ''GT''), 2), ((''AG'', ''GT''), 1)]\<rparr>, s) \<and>
   solve_entry_tips randint limit
     \<lparr>nodes = [1::nat, 2, 3, 4], edges = [((1, 2), 5), ((1, 3), 1), ((2, 4), 5), ((3, 4), 1)]\<rparr>
     [1] s
   = (Raise RecursionError
     \<lparr>nodes = [1::nat, 2, 3, 4], edges = [((1, 2), 5), ((1, 3), 1), ((2, 4), 5), ((3, 4), 1)]\<rparr>, s)"
proof
  show "solve_entry_tips randint (Suc (Suc depth))
     \<lparr>nodes = [''AC'', ''CG'', ''GT'', ''TC'', ''AG''],
      edges = [((''AC'', ''CG''), 2), ((''CG'', ''GT''), 2), ((''TC'', ''CG''), 1),
               ((''AG'', ''GT''), 1)]\<rparr>
     [''AC'', ''TC'', ''AG''] s
   = (Raise NodeNotFound
        \<lparr>nodes = [''AC'', ''CG'', ''GT'', ''AG''],
         edges = [((''AC'', ''CG''), 2), ((''CG'', ''GT''), 2), ((''AG'', ''GT''), 1)]\<rparr>, s)"
    by (simp add: graph_defs)
qed (rule solve_entry_tips_single_candidate)

section \<open>What the removal of the losing paths leaves\<close>

lemma pop_Inr:
  assumes "pop xs k = Inr ys"
  shows "\<exists>i < length xs. ys = without i xs"
proof (cases "0 \<le> k \<and> k < int (length xs)")
  case True
  with assms have "ys = without (nat k) xs" by (simp add: pop_def without_def)
  moreover from True have "nat k < length xs" by linarith
  ultimately show ?thesis by blast
next
  case False
  with assms have k: "k < 0 \<and> - int (length xs) \<le> k"
    and "ys = without (nat (int (length xs) + k)) xs"
    by (auto simp: pop_def without_def split: if_splits)
  moreover from k have "nat (int (length xs) + k) < length xs" by linarith
  ultimately show ?thesis by blast
qed

lemma select_best_path_Ok:
  assumes "select_best_path randint g path_list path_length weight_avg_list de ds s = (Ok g', s')"
  shows "(length path_list = 1 \<and> g' = g \<and> s' = s) \<or>
         (length path_list \<noteq> 1 \<and>
          (\<exists>i < length path_list. remove_paths g (without i path_list) de ds = Ok g'))"
proof (cases "length path_list = 1")
  case True
  with assms show ?thesis by (simp add: select_best_path_def)
next
  case False
  from assms False obtain k s1 where
    "selected_path_index randint (length path_list) path_length weight_avg_list s = Inr (k, s1)"
    by (auto simp: select_best_path_def split: sum.splits)
  with assms False obtain losers where l: "pop path_list k = Inr losers"
    and r: "remove_paths g losers de ds = Ok g'"
    by (auto simp: select_best_path_def split: sum.splits)
  from pop_Inr [OF l] r False show ?thesis by auto
qed

text \<open>
  Claim C2, as the code has it. When \<^verbatim>\<open>select_best_path\<close> returns for two or more paths,
  one index \<open>i\<close> is the winner's and the other paths are the losers. The edges of the
  returned graph are the edges of the graph that lie on no losing path and touch no
  deleted node; the deleted nodes are the first nodes of the losing paths under
  \<^verbatim>\<open>delete_entry_node\<close> and their last nodes under \<^verbatim>\<open>delete_sink_node\<close>. So an edge of
  the winning path stays unless a losing path has it too, or one of its ends is deleted.
  The nodes of the returned graph are the nodes that are not deleted and have an edge
  left: no node of degree 0 remains.
\<close>

theorem select_best_path_removes_loser_edges:
  assumes "wf_graph g"
    and "2 \<le> length path_list"
    and "select_best_path randint g path_list path_length weight_avg_list
           delete_entry_node delete_sink_node s = (Ok g', s')"
  shows "\<exists>i < length path_list.
     edges g' =
       filter (\<lambda>e. fst e \<notin> paths_edges (without i path_list) \<and>
            fst (fst e) \<notin> set (deleted_nodes (without i path_list)
                                   delete_entry_node delete_sink_node) \<and>
            snd (fst e) \<notin> set (deleted_nodes (without i path_list)
                                   delete_entry_node delete_sink_node)) (edges g) \<and>
     nodes g' =
       filter (\<lambda>n. n \<notin> set (deleted_nodes (without i path_list)
                               delete_entry_node delete_sink_node) \<and>
                   degree g' n \<noteq> 0) (nodes g) \<and>
     (delete_entry_node \<longrightarrow> (\<forall>path \<in> set (without i path_list). hd path \<notin> set (nodes g'))) \<and>
     (delete_sink_node \<longrightarrow> (\<forall>path \<in> set (without i path_list). last path \<notin> set (nodes g'))) \<and>
     (\<forall>n \<in> set (nodes g'). degree g' n \<noteq> 0)"
proof -
  from select_best_path_Ok [OF assms(3)] assms(2) obtain i where i: "i < length path_list"
    and r: "remove_paths g (without i path_list) delete_entry_node delete_sink_node = Ok g'"
    by auto
  note res = remove_paths_result [OF assms(1) r]
  let ?D = "set (deleted_nodes (without i path_list) delete_entry_node delete_sink_node)"
  have "set (nodes g') = {n \<in> set (nodes g). n \<notin> ?D \<and> degree g' n \<noteq> 0}"
    by (subst res(3)) simp
  then have n: "set (nodes g') \<inter> ?D = {}" "\<forall>n \<in> set (nodes g'). degree g' n \<noteq> 0"
    by blast+
  have "delete_entry_node \<longrightarrow> (\<forall>path \<in> set (without i path_list). hd path \<in> ?D)"
    by (simp add: deleted_nodes_def)
  moreover have "delete_sink_node \<longrightarrow> (\<forall>path \<in> set (without i path_list). last path \<in> ?D)"
    by (simp add: deleted_nodes_def)
  ultimately have "delete_entry_node \<longrightarrow> (\<forall>path \<in> set (without i path_list). hd path \<notin> set (nodes g'))"
    "delete_sink_node \<longrightarrow> (\<forall>path \<in> set (without i path_list). last path \<notin> set (nodes g'))"
    using n(1) by blast+
  with i res(2,3) n(2) show ?thesis by blast
qed

theorem select_best_path_removes_loser_edges_witness:
  "select_best_path lcg_randint \<lparr>nodes = [1::nat, 2, 3], edges = [((1, 3), 2), ((2, 3), 1)]\<rparr>
      [[1, 3], [2, 3]] [1, 1] [2, 1] True False (7::nat)
     = (Ok \<lparr>nodes = [1, 3], edges = [((1, 3), 2)]\<rparr>, 7) \<and>
   (\<exists>i < length [[1::nat, 3], [2, 3]].
      edges \<lparr>nodes = [1::nat, 3], edges = [((1, 3), 2)]\<rparr> =
        filter (\<lambda>e. fst e \<notin> paths_edges (without i [[1, 3], [2, 3]]) \<and>
            fst (fst e) \<notin> set (deleted_nodes (without i [[1, 3], [2, 3]]) True False) \<and>
            snd (fst e) \<notin> set (deleted_nodes (without i [[1, 3], [2, 3]]) True False))
          (edges \<lparr>nodes = [1::nat, 2, 3], edges = [((1, 3), 2), ((2, 3), 1)]\<rparr>))"
proof -
  have w: "wf_graph \<lparr>nodes = [1::nat, 2, 3], edges = [((1, 3), 2), ((2, 3), 1)]\<rparr>"
    by (simp add: wf_graph_def)
  have l: "2 \<le> length [[1::nat, 3], [2, 3]]" by simp
  have h: "select_best_path lcg_randint \<lparr>nodes = [1::nat, 2, 3], edges = [((1, 3), 2), ((2, 3), 1)]\<rparr>
      [[1, 3], [2, 3]] [1, 1] [2, 1] True False (7::nat)
     = (Ok \<lparr>nodes = [1, 3], edges = [((1, 3), 2)]\<rparr>, 7)"
    by (simp add: graph_defs)
  from select_best_path_removes_loser_edges [OF w l h] h show ?thesis by blast
qed

text \<open>
  Claim C2 as stated fails where the winner shares an edge with a loser: the two paths
  from 1 to 5 begin with the edge from 1 to 2, the first one wins on its weight, and the
  removal of the second one takes the edge from 1 to 2 (and then the isolated node 1) out
  of the graph.
\<close>

theorem select_best_path_removes_shared_winner_edge:
  "select_best_path lcg_randint
      \<lparr>nodes = [1::nat, 2, 3, 4, 5],
       edges = [((1, 2), 5), ((2, 3), 5), ((3, 5), 5), ((2, 4), 1), ((4, 5), 1)]\<rparr>
      [[1, 2, 3, 5], [1, 2, 4, 5]] [3, 3] [5, 1] False False (7::nat)
     = (Ok \<lparr>nodes = [2, 3, 5], edges = [((2, 3), 5), ((3, 5), 5)]\<rparr>, 7) \<and>
   selected_path_index lcg_randint 2 [3, 3] [5, 1] (7::nat) = Inr (0, 7) \<and>
   (1, 2) \<in> set (path_edges ([[1::nat, 2, 3, 5], [1, 2, 4, 5]] ! 0)) \<and>
   has_edge \<lparr>nodes = [1::nat, 2, 3, 4, 5],
       edges = [((1, 2), 5), ((2, 3), 5), ((3, 5), 5), ((2, 4), 1), ((4, 5), 1)]\<rparr> 1 2 \<and>
   \<not> has_edge \<lparr>nodes = [2::nat, 3, 5], edges = [((2, 3), 5), ((3, 5), 5)]\<rparr> 1 2"
  by (simp add: graph_defs path_edges_def)

section \<open>Bubble resolution\<close>

lemma deleted_nodes_none [simp]: "deleted_nodes path_list False False = []"
  by (simp add: deleted_nodes_def)

lemma solve_bubble_Ok:
  assumes "solve_bubble randint g ancestor_node descendant_node s = (Ok g', s')"
  obtains a d all_paths all_weigths where "ancestor_node = Some a" "descendant_node = Some d"
    and "all_simple_paths g a d = Inr all_paths"
    and "select_best_path randint g all_paths (map (\<lambda>path. int (length path) - 1) all_paths)
           all_weigths False False s = (Ok g', s')"
  using assms unfolding solve_bubble_def
  by (auto split: option.splits sum.splits)

text \<open>
  Claim C7, as the code has it. \<^verbatim>\<open>solve_bubble\<close> asks for no endpoint deletion. When it
  returns, either one path was found and the graph is unchanged, or the edges of the
  losing paths are gone and with them every node that has no edge left. The ancestor
  (descendant) is a node of the returned graph exactly when one path was found or it
  still has an edge there.
\<close>

theorem solve_bubble_keeps_connected_endpoints:
  assumes "wf_graph g"
    and "solve_bubble randint g ancestor_node descendant_node s = (Ok g', s')"
  shows "\<exists>a d all_paths.
      ancestor_node = Some a \<and> descendant_node = Some d \<and>
      all_simple_paths g a d = Inr all_paths \<and>
      (length all_paths = 1 \<and> g' = g \<or>
       (\<exists>i < length all_paths.
          edges g' = filter (\<lambda>e. fst e \<notin> paths_edges (without i all_paths)) (edges g) \<and>
          nodes g' = filter (\<lambda>n. degree g' n \<noteq> 0) (nodes g))) \<and>
      (a \<in> set (nodes g') \<longleftrightarrow> length all_paths = 1 \<or> degree g' a \<noteq> 0) \<and>
      (d \<in> set (nodes g') \<longleftrightarrow>
         d \<in> set (nodes g) \<and> (length all_paths = 1 \<or> degree g' d \<noteq> 0))"
proof -
  from assms(2) obtain a d all_paths all_weigths
    where ad: "ancestor_node = Some a" "descendant_node = Some d"
      and p: "all_simple_paths g a d = Inr all_paths"
      and sel: "select_best_path randint g all_paths
           (map (\<lambda>path. int (length path) - 1) all_paths) all_weigths False False s = (Ok g', s')"
    by (rule solve_bubble_Ok)
  from p have a: "a \<in> set (nodes g)"
    by (auto simp: all_simple_paths_def split: if_splits)
  from select_best_path_Ok [OF sel]
  show ?thesis
  proof
    assume one: "length all_paths = 1 \<and> g' = g \<and> s' = s"
    with ad p a show ?thesis by auto
  next
    assume "length all_paths \<noteq> 1 \<and>
      (\<exists>i < length all_paths. remove_paths g (without i all_paths) False False = Ok g')"
    then obtain i where n1: "length all_paths \<noteq> 1" and i: "i < length all_paths"
      and r: "remove_paths g (without i all_paths) False False = Ok g'" by blast
    from remove_paths_result(2,3) [OF assms(1) r]
    have e: "edges g' = filter (\<lambda>e. fst e \<notin> paths_edges (without i all_paths)) (edges g)"
      and n: "nodes g' = filter (\<lambda>n. degree g' n \<noteq> 0) (nodes g)"
      by simp_all
    have m: "x \<in> set (nodes g') \<longleftrightarrow> x \<in> set (nodes g) \<and> degree g' x \<noteq> 0" for x
      by (subst n) simp
    from i e n have "\<exists>i < length all_paths.
          edges g' = filter (\<lambda>e. fst e \<notin> paths_edges (without i all_paths)) (edges g) \<and>
          nodes g' = filter (\<lambda>n. degree g' n \<noteq> 0) (nodes g)" by blast
    with ad p a n1 m [of a] m [of d] show ?thesis by auto
  qed
qed

theorem solve_bubble_keeps_connected_endpoints_witness:
  "solve_bubble lcg_randint
     \<lparr>nodes = [1::nat, 2, 3, 4], edges = [((1, 2), 5), ((1, 3), 1), ((2, 4), 5), ((3, 4), 1)]\<rparr>
     (Some 1) (Some 4) (7::nat)
   = (Ok \<lparr>nodes = [1, 2, 4], edges = [((1, 2), 5), ((2, 4), 5)]\<rparr>, 7) \<and>
   (\<exists>a d all_paths. Some (1::nat) = Some a \<and> Some (4::nat) = Some d \<and>
      all_simple_paths
        \<lparr>nodes = [1::nat, 2, 3, 4], edges = [((1, 2), 5), ((1, 3), 1), ((2, 4), 5), ((3, 4), 1)]\<rparr>
        a d = Inr all_paths \<and>
      (a \<in> set (nodes \<lparr>nodes = [1::nat, 2, 4], edges = [((1, 2), 5), ((2, 4), 5)]\<rparr>) \<longleftrightarrow>
         length all_paths = 1 \<or>
         degree \<lparr>nodes = [1::nat, 2, 4], edges = [((1, 2), 5), ((2, 4), 5)]\<rparr> a \<noteq> 0))"
proof -
  have w: "wf_graph
     \<lparr>nodes = [1::nat, 2, 3, 4], edges = [((1, 2), 5), ((1, 3), 1), ((2, 4), 5), ((3, 4), 1)]\<rparr>"
    by (simp add: wf_graph_def)
  have h: "solve_bubble lcg_randint
     \<lparr>nodes = [1::nat, 2, 3, 4], edges = [((1, 2), 5), ((1, 3), 1), ((2, 4), 5), ((3, 4), 1)]\<rparr>
     (Some 1) (Some 4) (7::nat)
   = (Ok \<lparr>nodes = [1, 2, 4], edges = [((1, 2), 5), ((2, 4), 5)]\<rparr>, 7)"
    by (simp add: solve_bubble_def graph_defs)
  from solve_bubble_keeps_connected_endpoints [OF w h] h show ?thesis by blast
qed

text \<open>
  Claim C7 as stated fails on the following graph. The scan of \<^verbatim>\<open>simplify_bubbles\<close> finds
  the ancestor 1 of the predecessors 3 and 4 of node 6. The three paths from 1 to 6 are
  1 2 3 6, 1 2 5 6 and 1 4 6; the first one wins. The two losers hold both edges of node
  1, which is left isolated and deleted.
\<close>

theorem solve_bubble_deletes_isolated_ancestor:
  "scan_nodes lowest_common_ancestor
     \<lparr>nodes = [1::nat, 2, 3, 4, 5, 6],
      edges = [((1, 2), 10), ((2, 3), 10), ((3, 6), 10), ((1, 4), 1), ((4, 6), 1),
               ((2, 5), 1), ((5, 6), 1)]\<rparr>
     [1, 2, 3, 4, 5, 6] (False, None, None) = Inr (True, Some 1, Some 6) \<and>
   solve_bubble lcg_randint
     \<lparr>nodes = [1::nat, 2, 3, 4, 5, 6],
      edges = [((1, 2), 10), ((2, 3), 10), ((3, 6), 10), ((1, 4), 1), ((4, 6), 1),
               ((2, 5), 1), ((5, 6), 1)]\<rparr>
     (Some 1) (Some 6) (7::nat)
   = (Ok \<lparr>nodes = [2, 3, 6], edges = [((2, 3), 10), ((3, 6), 10)]\<rparr>, 7) \<and>
   1 \<notin> set (nodes \<lparr>nodes = [2::nat, 3, 6], edges = [((2, 3), 10), ((3, 6), 10)]\<rparr>)"
  by code_simp

section \<open>The enumeration of simple paths\<close>

lemma simple_paths_from_sound:
  "p \<in> set (simple_paths_from c g t visited u) \<Longrightarrow>
     \<exists>q. p = visited @ q \<and> q \<noteq> [] \<and> length q \<le> c \<and> is_chain g u q \<and> distinct q \<and>
         set q \<inter> set visited = {} \<and> last q = t"
proof (induction c arbitrary: visited u)
  case 0
  then show ?case by simp
next
  case (Suc c)
  from Suc.prems obtain child where ch: "child \<in> set (successors g u)"
    and p: "p \<in> set (if child \<in> set visited then []
                     else if child = t then [visited @ [child]]
                     else simple_paths_from c g t (visited @ [child]) child)"
    by auto
  from p have nv: "child \<notin> set visited" by (auto split: if_splits)
  show ?case
  proof (cases "child = t")
    case True
    with p nv have "p = visited @ [child]" by simp
    with ch nv True show ?thesis by (intro exI [of _ "[child]"]) simp
  next
    case False
    with p nv have "p \<in> set (simple_paths_from c g t (visited @ [child]) child)" by simp
    from Suc.IH [OF this] obtain q where q: "p = (visited @ [child]) @ q" "q \<noteq> []"
      "length q \<le> c" "is_chain g child q" "distinct q"
      "set q \<inter> set (visited @ [child]) = {}" "last q = t" by blast
    with ch nv show ?thesis by (intro exI [of _ "child # q"]) auto
  qed
qed

lemma simple_paths_from_complete:
  "q \<noteq> [] \<Longrightarrow> length q \<le> c \<Longrightarrow> is_chain g u q \<Longrightarrow> distinct q \<Longrightarrow>
   set q \<inter> set visited = {} \<Longrightarrow> last q = t \<Longrightarrow>
     visited @ q \<in> set (simple_paths_from c g t visited u)"
proof (induction c arbitrary: visited u q)
  case 0
  then show ?case by simp
next
  case (Suc c)
  from Suc.prems(1) obtain v q' where q: "q = v # q'" by (cases q) auto
  with Suc.prems have v: "v \<in> set (successors g u)" "v \<notin> set visited" "v \<notin> set q'"
    and q': "length q' \<le> c" "is_chain g v q'" "distinct q'"
      "set q' \<inter> set (visited @ [v]) = {}"
    by auto
  show ?case
  proof (cases "q' = []")
    case True
    with Suc.prems(6) q have "v = t" by simp
    with v True q show ?thesis by force
  next
    case False
    with Suc.prems(6) q have l: "last q' = t" by simp
    with False have "t \<in> set q'" using last_in_set by fastforce
    with v(3) have vt: "v \<noteq> t" by auto
    from Suc.IH [OF False q'(1,2,3,4) l]
    have "(visited @ [v]) @ q' \<in> set (simple_paths_from c g t (visited @ [v]) v)" .
    with v vt q show ?thesis by force
  qed
qed

lemma is_chain_nodes:
  assumes "wf_graph g"
  shows "is_chain g u q \<Longrightarrow> set q \<subseteq> set (nodes g) \<and> (q \<noteq> [] \<longrightarrow> u \<in> set (nodes g))"
proof (induction q arbitrary: u)
  case Nil
  then show ?case by simp
next
  case (Cons v q)
  from Cons.prems have v: "v \<in> set (successors g u)" and c: "is_chain g v q" by simp_all
  from v obtain e where "e \<in> set (edges g)" "fst (fst e) = u" "snd (fst e) = v"
    by (auto simp: successors_def)
  with assms have "u \<in> set (nodes g)" "v \<in> set (nodes g)" by (auto simp: wf_graph_def)
  with Cons.IH [OF c] show ?case by simp
qed

lemma is_simple_path_nodes:
  assumes "wf_graph g" "is_simple_path g s t p"
  shows "set p \<subseteq> set (nodes g)" and "2 \<le> length p" and "hd p = s" and "last p = t"
    and "length p \<le> length (nodes g)"
proof -
  from assms(2) obtain q where p: "p = s # q" and q: "q \<noteq> []" "last q = t" "distinct p"
    "is_chain g s q"
    by (auto simp: is_simple_path_def split: list.splits)
  from is_chain_nodes [OF assms(1) q(4)] q(1) p show n: "set p \<subseteq> set (nodes g)" by simp
  from p q show "2 \<le> length p" by (cases q) auto
  from p show "hd p = s" by simp
  from p q show "last p = t" by simp
  have "length p = card (set p)" using q(3) by (simp add: distinct_card)
  also have "\<dots> \<le> card (set (nodes g))" using n by (intro card_mono) auto
  also have "\<dots> \<le> length (nodes g)" by (rule card_length)
  finally show "length p \<le> length (nodes g)" .
qed

lemma all_simple_paths_set:
  assumes "wf_graph g" and "s \<in> set (nodes g)"
  shows "\<exists>ps. all_simple_paths g s t = Inr ps \<and> set ps = {p. is_simple_path g s t p}"
proof (cases "s = t")
  case True
  have "\<not> is_simple_path g s s p" for p
    by (auto simp: is_simple_path_def split: list.splits)
  with True assms(2) show ?thesis by (simp add: all_simple_paths_def)
next
  case False
  let ?c = "length (nodes g) - 1"
  have "p \<in> set (simple_paths_from ?c g t [s] s) \<longleftrightarrow> is_simple_path g s t p" for p
  proof
    assume "p \<in> set (simple_paths_from ?c g t [s] s)"
    from simple_paths_from_sound [OF this] show "is_simple_path g s t p"
      by (auto simp: is_simple_path_def)
  next
    assume a: "is_simple_path g s t p"
    then obtain q where p: "p = s # q" and q: "q \<noteq> []" "last q = t" "distinct p"
      "is_chain g s q"
      by (auto simp: is_simple_path_def split: list.splits)
    from is_simple_path_nodes(5) [OF assms(1) a] p have "length q \<le> ?c" by simp
    from simple_paths_from_complete [OF q(1) this q(4), of "[s]" t] q p
    show "p \<in> set (simple_paths_from ?c g t [s] s)" by simp
  qed
  with False assms(2) show ?thesis by (auto simp: all_simple_paths_def)
qed

section \<open>Contigs\<close>

lemma collect_all_Inr:
  "\<forall>r \<in> set rs. \<exists>x. r = Inr x \<Longrightarrow> \<exists>xs. collect rs = Inr xs \<and> rs = map Inr xs"
proof (induction rs)
  case Nil
  then show ?case by simp
next
  case (Cons r rs)
  from Cons.prems obtain x where r: "r = Inr x" by auto
  from Cons.prems have "\<forall>r \<in> set rs. \<exists>x. r = Inr x" by simp
  from Cons.IH [OF this] obtain xs where "collect rs = Inr xs" "rs = map Inr xs" by blast
  with r show ?case by (intro exI [of _ "x # xs"]) simp
qed

lemma drop_to_last:
  assumes "length j = L" "0 < L"
  shows "drop (L - 1) j = [last j]"
proof (cases j rule: rev_cases)
  case Nil
  with assms show ?thesis by simp
next
  case (snoc ys y)
  with assms show ?thesis by simp
qed

lemma fold_append_concat:
  "fold (\<lambda>j acc. acc @ f j) xs init = init @ concat (map f xs)"
  by (induction xs arbitrary: init) simp_all

lemma contig_of_path_uniform:
  assumes "p \<noteq> []" "\<forall>n \<in> set p. length n = L" "0 < L"
  shows "contig_of_path p = hd p @ map last (tl p)"
proof -
  from assms(1,2) have h: "length (hd p) = L" by (cases p) auto
  have t: "\<forall>j \<in> set (tl p). length j = L" using assms(1,2) by (cases p) auto
  have s: "slice_from j (int L - 1) = drop (L - 1) j" for j
    using assms(3) by (simp add: slice_from_def nat_diff_distrib')
  have d: "slice_from j (int L - 1) = [last j]" if "length j = L" for j
    using drop_to_last [OF that assms(3)] by (simp add: s)
  have m: "map (\<lambda>j. slice_from j (int L - 1)) (tl p) = map (\<lambda>j. [last j]) (tl p)"
    by (rule map_cong [OF refl]) (use t d in blast)
  have c: "concat (map (\<lambda>j. [last j]) xs) = map last xs" for xs :: "string list"
    by (induction xs) simp_all
  have "concat (map (\<lambda>j. slice_from j (int L - 1)) (tl p)) = map last (tl p)"
    unfolding m by (rule c)
  then show ?thesis by (simp add: contig_of_path_def fold_append_concat h)
qed

lemma get_contigs_set:
  assumes "wf_graph g"
    and "\<forall>n \<in> set (nodes g). length n = L" and "0 < L"
    and "set starting_nodes \<subseteq> set (nodes g)"
  shows "\<exists>contigs. get_contigs g starting_nodes ending_nodes = Inr contigs \<and>
      set contigs =
        {(hd p @ map last (tl p), length (hd p @ map last (tl p))) | p start stop.
           start \<in> set starting_nodes \<and> stop \<in> set ending_nodes \<and>
           is_simple_path g start stop p}"
proof -
  let ?rs = "concat (map (\<lambda>start. map (\<lambda>stop. all_simple_paths g start stop) ending_nodes)
                         starting_nodes)"
  have rs: "r \<in> set ?rs \<longleftrightarrow>
      (\<exists>start \<in> set starting_nodes. \<exists>stop \<in> set ending_nodes. r = all_simple_paths g start stop)"
    for r by auto
  have "\<forall>r \<in> set ?rs. \<exists>x. r = Inr x"
  proof
    fix r assume "r \<in> set ?rs"
    then obtain start stop where "start \<in> set starting_nodes" "r = all_simple_paths g start stop"
      unfolding rs by blast
    with all_simple_paths_set [OF assms(1), of start stop] assms(4)
    show "\<exists>x. r = Inr x" by auto
  qed
  from collect_all_Inr [OF this] obtain paths where c: "collect ?rs = Inr paths"
    and m: "?rs = map Inr paths" by blast
  have sp: "set paths = {ps. Inr ps \<in> set ?rs}"
    unfolding m by (auto simp: image_iff)
  have mem: "p \<in> set (concat paths) \<longleftrightarrow>
      (\<exists>start \<in> set starting_nodes. \<exists>stop \<in> set ending_nodes. is_simple_path g start stop p)"
    for p
  proof
    assume "p \<in> set (concat paths)"
    then obtain ps where "p \<in> set ps" "Inr ps \<in> set ?rs" using sp by auto
    then obtain start stop where se: "start \<in> set starting_nodes" "stop \<in> set ending_nodes"
      and a: "all_simple_paths g start stop = Inr ps" unfolding rs by metis
    from all_simple_paths_set [OF assms(1), of start stop] se(1) assms(4) a \<open>p \<in> set ps\<close>
    have "is_simple_path g start stop p" by auto
    with se show "\<exists>start \<in> set starting_nodes. \<exists>stop \<in> set ending_nodes.
         is_simple_path g start stop p" by blast
  next
    assume "\<exists>start \<in> set starting_nodes. \<exists>stop \<in> set ending_nodes.
         is_simple_path g start stop p"
    then obtain start stop where se: "start \<in> set starting_nodes" "stop \<in> set ending_nodes"
      and i: "is_simple_path g start stop p" by blast
    from all_simple_paths_set [OF assms(1), of start stop] se(1) assms(4) i
    obtain ps where a: "all_simple_paths g start stop = Inr ps" and "p \<in> set ps" by auto
    from a se have "Inr ps \<in> set ?rs" unfolding rs by metis
    with \<open>p \<in> set ps\<close> sp show "p \<in> set (concat paths)" by auto
  qed
  have ct: "contig_of_path p = hd p @ map last (tl p)" if "p \<in> set (concat paths)" for p
  proof -
    from that obtain start stop where i: "is_simple_path g start stop p" unfolding mem by blast
    from is_simple_path_nodes(1,2) [OF assms(1) i] assms(2)
    have "p \<noteq> []" "\<forall>n \<in> set p. length n = L" by auto
    then show ?thesis using assms(3) by (rule contig_of_path_uniform)
  qed
  have g: "get_contigs g starting_nodes ending_nodes =
      Inr (map (\<lambda>path. (contig_of_path path, length (contig_of_path path))) (concat paths))"
    using c by (simp add: get_contigs_def)
  have "set (map (\<lambda>path. (contig_of_path path, length (contig_of_path path))) (concat paths)) =
      {(hd p @ map last (tl p), length (hd p @ map last (tl p))) | p start stop.
           start \<in> set starting_nodes \<and> stop \<in> set ending_nodes \<and>
           is_simple_path g start stop p}" (is "?A = ?B")
  proof (intro set_eqI iffI)
    fix x assume "x \<in> ?A"
    then obtain p where p: "p \<in> set (concat paths)"
      and x: "x = (contig_of_path p, length (contig_of_path p))" by auto
    from p obtain start stop where "start \<in> set starting_nodes" "stop \<in> set ending_nodes"
      "is_simple_path g start stop p" unfolding mem by blast
    with x ct [OF p] show "x \<in> ?B" by auto
  next
    fix x assume "x \<in> ?B"
    then obtain p start stop where x: "x = (hd p @ map last (tl p), length (hd p @ map last (tl p)))"
      and se: "start \<in> set starting_nodes" "stop \<in> set ending_nodes"
      "is_simple_path g start stop p" by blast
    then have p: "p \<in> set (concat paths)" unfolding mem by blast
    from ct [OF p] x have "x = (contig_of_path p, length (contig_of_path p))" by simp
    with p show "x \<in> ?A" by (auto simp: image_iff)
  qed
  with g show ?thesis by simp
qed

lemma build_graph_example:
  "build_graph (build_kmer_dict [''AACCGGTT'', ''CCGGTTAA''] 4) =
     \<lparr>nodes = [''AAC'', ''ACC'', ''CCG'', ''CGG'', ''GGT'', ''GTT'', ''TTA'', ''TAA''],
      edges = [((''AAC'', ''ACC''), 1), ((''ACC'', ''CCG''), 1), ((''CCG'', ''CGG''), 2),
               ((''CGG'', ''GGT''), 2), ((''GGT'', ''GTT''), 2), ((''GTT'', ''TTA''), 1),
               ((''TTA'', ''TAA''), 1)]\<rparr>"
  by code_simp

lemma get_contigs_example:
  "get_contigs (build_graph (build_kmer_dict [''AACCGGTT'', ''CCGGTTAA''] 4))
      (get_starting_nodes (build_graph (build_kmer_dict [''AACCGGTT'', ''CCGGTTAA''] 4)))
      (get_sink_nodes (build_graph (build_kmer_dict [''AACCGGTT'', ''CCGGTTAA''] 4)))
    = Inr [(''AACCGGTTAA'', 10)]"
  by code_simp

lemma assemble_example:
  "assemble lowest_common_ancestor lcg_randint 1000 [''AACCGGTT'', ''CCGGTTAA''] 4 (9001::nat)
     = (Inr [(''AACCGGTTAA'', 10)], 9001)"
  by code_simp

text \<open>
  Claim C6. In a graph whose labels have one common length (as the k-mers' prefixes and
  suffixes have), \<^verbatim>\<open>get_contigs\<close> started from nodes of the graph returns, for every
  simple path from a starting node to an ending node, the first label followed by the last
  character of each further label, with its length, and nothing else. For the reads
  AACCGGTT and CCGGTTAA and k = 4 the graph built yields the one contig AACCGGTTAA of
  length 10.
\<close>

theorem get_contigs_emits_every_path:
  assumes "wf_graph g"
    and "\<forall>n \<in> set (nodes g). length n = L" and "0 < L"
    and "set starting_nodes \<subseteq> set (nodes g)"
  shows "(\<exists>contigs. get_contigs g starting_nodes ending_nodes = Inr contigs \<and>
      set contigs =
        {(hd p @ map last (tl p), length (hd p @ map last (tl p))) | p start stop.
           start \<in> set starting_nodes \<and> stop \<in> set ending_nodes \<and>
           is_simple_path g start stop p}) \<and>
    get_contigs (build_graph (build_kmer_dict [''AACCGGTT'', ''CCGGTTAA''] 4))
      (get_starting_nodes (build_graph (build_kmer_dict [''AACCGGTT'', ''CCGGTTAA''] 4)))
      (get_sink_nodes (build_graph (build_kmer_dict [''AACCGGTT'', ''CCGGTTAA''] 4)))
    = Inr [(''AACCGGTTAA'', 10)]"
  using get_contigs_set [OF assms] get_contigs_example by blast

theorem get_contigs_emits_every_path_witness:
  "\<exists>contigs.
     get_contigs
       \<lparr>nodes = [''AAC'', ''ACC'', ''CCG'', ''CGG'', ''GGT'', ''GTT'', ''TTA'', ''TAA''],
        edges = [((''AAC'', ''ACC''), 1), ((''ACC'', ''CCG''), 1), ((''CCG'', ''CGG''), 2),
                 ((''CGG'', ''GGT''), 2), ((''GGT'', ''GTT''), 2), ((''GTT'', ''TTA''), 1),
                 ((''TTA'', ''TAA''), 1)]\<rparr> [''AAC''] [''TAA''] = Inr contigs \<and>
     set contigs =
        {(hd p @ map last (tl p), length (hd p @ map last (tl p))) | p start stop.
           start \<in> set [''AAC''] \<and> stop \<in> set [''TAA''] \<and>
           is_simple_path
             \<lparr>nodes = [''AAC'', ''ACC'', ''CCG'', ''CGG'', ''GGT'', ''GTT'', ''TTA'', ''TAA''],
              edges = [((''AAC'', ''ACC''), 1), ((''ACC'', ''CCG''), 1), ((''CCG'', ''CGG''), 2),
                 ((''CGG'', ''GGT''), 2), ((''GGT'', ''GTT''), 2), ((''GTT'', ''TTA''), 1),
                 ((''TTA'', ''TAA''), 1)]\<rparr> start stop p}"
proof -
  let ?g = "\<lparr>nodes = [''AAC'', ''ACC'', ''CCG'', ''CGG'', ''GGT'', ''GTT'', ''TTA'', ''TAA''],
        edges = [((''AAC'', ''ACC''), 1), ((''ACC'', ''CCG''), 1), ((''CCG'', ''CGG''), 2),
                 ((''CGG'', ''GGT''), 2), ((''GGT'', ''GTT''), 2), ((''GTT'', ''TTA''), 1),
                 ((''TTA'', ''TAA''), (1::int))]\<rparr>"
  have w: "wf_graph ?g" by (simp add: wf_graph_def)
  have u: "\<forall>n \<in> set (nodes ?g). length n = 3" by simp
  have s: "set [''AAC''] \<subseteq> set (nodes ?g)" by simp
  from get_contigs_emits_every_path [OF w u _ s, of "[''TAA'']"] show ?thesis by simp
qed

section \<open>Bubbles in acyclic graphs have two paths\<close>

lemma is_chain_append:
  "is_chain g u (q @ r) \<longleftrightarrow> is_chain g u q \<and> is_chain g (last (u # q)) r"
  by (induction q arbitrary: u) auto

lemma successors_predecessors: "v \<in> set (successors g u) \<longleftrightarrow> u \<in> set (predecessors g v)"
  by (force simp: successors_def predecessors_def)

lemma successors_edge: "v \<in> set (successors g u) \<longleftrightarrow> (u, v) \<in> set (map fst (edges g))"
  by (force simp: successors_def)

lemma is_dag_edge:
  assumes "is_dag g" "v \<in> set (successors g u)"
  shows "u \<noteq> v" and "simple_paths_from (length (nodes g) - 1) g u [v] v = []"
proof -
  from assms(2) obtain e where e: "e \<in> set (edges g)" "fst e = (u, v)"
    by (auto simp: successors_edge)
  with assms(1) show "u \<noteq> v" "simple_paths_from (length (nodes g) - 1) g u [v] v = []"
    by (auto simp: is_dag_def list_all_iff)
qed

lemma is_simple_path_complete:
  assumes "wf_graph g" "is_simple_path g s t p"
  shows "p \<in> set (simple_paths_from (length (nodes g) - 1) g t [s] s)"
proof -
  from assms(2) obtain q where p: "p = s # q" and q: "q \<noteq> []" "last q = t" "distinct p"
    "is_chain g s q"
    by (auto simp: is_simple_path_def split: list.splits)
  from is_simple_path_nodes(5) [OF assms] p have "length q \<le> length (nodes g) - 1" by simp
  from simple_paths_from_complete [OF q(1) this q(4), of "[s]" t] q p
  show ?thesis by simp
qed

lemma dag_no_return:
  assumes wf: "wf_graph g" and dag: "is_dag g"
    and p: "is_simple_path g a x p" and d: "d \<in> set (successors g x)"
  shows "d \<notin> set p"
proof
  assume "d \<in> set p"
  then obtain pre post where sp: "p = pre @ d # post" by (auto simp: in_set_conv_decomp)
  from p obtain q where pq: "p = a # q" and q: "q \<noteq> []" "last q = x" "distinct p" "is_chain g a q"
    by (auto simp: is_simple_path_def split: list.splits)
  from is_dag_edge [OF dag d] have xd: "x \<noteq> d"
    and none: "simple_paths_from (length (nodes g) - 1) g x [d] d = []" by simp_all
  have lp: "last p = x" using pq q by simp
  with sp xd have post: "post \<noteq> []" by auto
  with sp lp have lpost: "last post = x" by simp
  have ch: "is_chain g a (tl p)" using pq q by simp
  have "is_chain g d post"
  proof (cases pre)
    case Nil
    with sp pq ch show ?thesis by simp
  next
    case (Cons b pre')
    with sp pq have "q = pre' @ d # post" by simp
    with q(4) show ?thesis by (simp add: is_chain_append)
  qed
  moreover have "distinct (d # post)" using q(3) sp by simp
  ultimately have "is_simple_path g d x (d # post)"
    using post lpost by (simp add: is_simple_path_def)
  from is_simple_path_complete [OF wf this] none show False by simp
qed

lemma reaches_path_via:
  assumes wf: "wf_graph g" and dag: "is_dag g"
    and r: "reaches g a x" and x: "x \<in> set (predecessors g d)"
  shows "\<exists>p. is_simple_path g a d p \<and> last (butlast p) = x"
proof -
  from x have dx: "d \<in> set (successors g x)" by (simp add: successors_predecessors)
  from is_dag_edge(1) [OF dag dx] have xd: "x \<noteq> d" .
  show ?thesis
  proof (cases "a = x")
    case True
    with dx xd have "is_simple_path g a d [a, d]" by (simp add: is_simple_path_def)
    with True show ?thesis by (intro exI [of _ "[a, d]"]) simp
  next
    case False
    with r obtain p0 where "p0 \<in> set (simple_paths_from (length (nodes g) - 1) g x [a] a)"
      by (cases "simple_paths_from (length (nodes g) - 1) g x [a] a") (auto simp: reaches_def)
    from simple_paths_from_sound [OF this] obtain q where p0: "p0 = [a] @ q" and q: "q \<noteq> []"
      "is_chain g a q" "distinct q" "set q \<inter> set [a] = {}" "last q = x" by blast
    have sp: "is_simple_path g a x p0" using p0 q by (auto simp: is_simple_path_def)
    from dag_no_return [OF wf dag sp dx] have nd: "d \<notin> set p0" .
    have "is_chain g a (q @ [d])" using q dx by (simp add: is_chain_append)
    moreover have "distinct (p0 @ [d])" using nd p0 q by auto
    ultimately have "is_simple_path g a d (p0 @ [d])"
      using p0 by (simp add: is_simple_path_def)
    moreover have "last (butlast (p0 @ [d])) = x" using p0 q by simp
    ultimately show ?thesis by blast
  qed
qed

lemma two_paths_of_bubble:
  assumes wf: "wf_graph g" and dag: "is_dag g"
    and "reaches g a x" "reaches g a y"
    and "x \<in> set (predecessors g d)" "y \<in> set (predecessors g d)" "x \<noteq> y"
    and ps: "all_simple_paths g a d = Inr all_paths"
  shows "2 \<le> length all_paths"
proof -
  from ps have a: "a \<in> set (nodes g)" by (auto simp: all_simple_paths_def split: if_splits)
  from all_simple_paths_set [OF wf a, of d] ps
  have s: "set all_paths = {p. is_simple_path g a d p}" by simp
  from reaches_path_via [OF wf dag assms(3,5)] obtain p1 where
    p1: "is_simple_path g a d p1" "last (butlast p1) = x" by blast
  from reaches_path_via [OF wf dag assms(4,6)] obtain p2 where
    p2: "is_simple_path g a d p2" "last (butlast p2) = y" by blast
  from p1 p2 assms(7) have "p1 \<noteq> p2" by auto
  moreover from p1 p2 s have "p1 \<in> set all_paths" "p2 \<in> set all_paths" by simp_all
  ultimately have "2 \<le> card (set all_paths)"
    by (metis card_2_iff' card_mono List.finite_set empty_subsetI insert_subset card_2_iff)
  also have "\<dots> \<le> length all_paths" by (rule card_length)
  finally show ?thesis .
qed

section \<open>The scan for bubbles\<close>

lemma scan_pairs_found:
  assumes "scan_pairs lca g node node_i rest st = Inr st'"
    and "found lca g st"
    and "node_i \<in> set (predecessors g node)" "set rest \<subseteq> set (predecessors g node)"
    and "node_i \<notin> set rest"
  shows "found lca g st'"
  using assms
proof (induction rest arbitrary: st)
  case Nil
  then show ?case by simp
next
  case (Cons node_j rest)
  obtain b anc desc where st: "st = (b, anc, desc)" by (cases st)
  show ?case
  proof (cases "lca g node_i node_j")
    case (Inl e)
    with Cons.prems(1) st show ?thesis by simp
  next
    case (Inr r)
    show ?thesis
    proof (cases r)
      case None
      with Inr Cons.prems(1) st
      have "scan_pairs lca g node node_i rest (b, None, desc) = Inr st'" by simp
      moreover have "found lca g (b, None, desc)" by (simp add: found_def)
      ultimately show ?thesis using Cons.IH Cons.prems(3,4,5) by simp
    next
      case (Some a)
      with Inr Cons.prems(1) st have "st' = (True, Some a, Some node)" by simp
      with Inr Some Cons.prems(3,4,5) show ?thesis
        by (auto simp: found_def)
    qed
  qed
qed

lemma scan_preds_found:
  assumes "scan_preds lca g node l st = Inr st'"
    and "found lca g st"
    and "set l \<subseteq> set (predecessors g node)" "distinct l"
  shows "found lca g st'"
  using assms
proof (induction l arbitrary: st)
  case Nil
  then show ?case by simp
next
  case (Cons node_i rest)
  from Cons.prems(1) obtain st1 where p: "scan_pairs lca g node node_i rest st = Inr st1"
    by (auto split: sum.splits)
  from scan_pairs_found [OF p Cons.prems(2)] Cons.prems(3,4)
  have f1: "found lca g st1" by simp
  obtain b anc desc where st1: "st1 = (b, anc, desc)" by (cases st1)
  show ?case
  proof (cases b)
    case True
    with Cons.prems(1) p st1 have "st' = st1" by simp
    with f1 show ?thesis by simp
  next
    case False
    with Cons.prems(1) p st1 have "scan_preds lca g node rest st1 = Inr st'" by simp
    with Cons.IH f1 Cons.prems(3,4) show ?thesis by simp
  qed
qed

lemma distinct_predecessors:
  assumes "wf_graph g"
  shows "distinct (predecessors g node)"
proof -
  from assms have d: "distinct (map fst (edges g))" by (simp add: wf_graph_def)
  have "distinct (map fst (filter (\<lambda>e. snd (fst e) = node) (edges g)))"
    using d by (rule distinct_map_filter)
  then have "distinct (map (fst \<circ> fst) (filter (\<lambda>e. snd (fst e) = node) (edges g)))"
    unfolding distinct_map by (auto intro!: inj_onI simp: comp_def dest: inj_onD prod_eqI)
  then show ?thesis by (simp add: predecessors_def)
qed

lemma scan_nodes_found:
  assumes "wf_graph g"
    and "scan_nodes lca g ns st = Inr st'" and "found lca g st"
  shows "found lca g st'"
  using assms(2,3)
proof (induction ns arbitrary: st)
  case Nil
  then show ?case by simp
next
  case (Cons node rest)
  show ?case
  proof (cases "length (predecessors g node) > 1")
    case True
    with Cons.prems(1) obtain st1 where
      p: "scan_preds lca g node (predecessors g node) st = Inr st1"
      and r: "scan_nodes lca g rest st1 = Inr st'"
      by (auto split: sum.splits)
    from scan_preds_found [OF p Cons.prems(2) subset_refl distinct_predecessors [OF assms(1)]]
    have "found lca g st1" .
    with Cons.IH r show ?thesis by simp
  next
    case False
    with Cons.prems Cons.IH show ?thesis by simp
  qed
qed

section \<open>Exceptions, and the decrease of the edge count\<close>

lemma remove_path_edges_Raise:
  "remove_path_edges g p = Raise e g' \<Longrightarrow> e = NetworkXError"
proof (induction g p rule: remove_path_edges.induct)
  case (1 g u v rest)
  show ?case
  proof (cases "remove_edge g u v")
    case (Inl e')
    with "1.prems" show ?thesis by (simp add: remove_edge_def split: if_splits)
  next
    case (Inr g1)
    with "1.prems" "1.IH" show ?thesis by simp
  qed
qed simp_all

lemma remove_all_paths_Raise:
  "remove_all_paths g ps = Raise e g' \<Longrightarrow> e = NetworkXError"
proof (induction ps arbitrary: g)
  case Nil
  then show ?case by simp
next
  case (Cons p ps)
  show ?case
  proof (cases "remove_path_edges g p")
    case (Ok g1)
    with Cons show ?thesis by simp
  next
    case (Raise e1 g1)
    with Cons.prems remove_path_edges_Raise [OF Raise] show ?thesis by simp
  qed
qed

lemma remove_paths_Raise:
  assumes "remove_paths g ps de ds = Raise e g'"
  shows "e \<noteq> RecursionError"
proof (cases "remove_all_paths g ps")
  case (Ok g1)
  with assms show ?thesis
    by (auto simp: remove_paths_def Let_def split: if_splits)
next
  case (Raise e1 g1)
  with assms remove_all_paths_Raise [OF Raise] show ?thesis
    by (simp add: remove_paths_def)
qed

lemma stdev_positive_Inl: "stdev_positive xs = Inl e \<Longrightarrow> e = StatisticsError"
  by (simp add: stdev_positive_def variance_def Let_def split: if_splits)

lemma py_randint_Inl: "py_randint randint a b s = Inl e \<Longrightarrow> e = ValueError"
  by (simp add: py_randint_def split: if_splits)

lemma selected_path_index_Inl:
  assumes "selected_path_index randint n ls ws s = Inl e"
  shows "e \<noteq> RecursionError"
proof (cases "stdev_positive ws")
  case (Inl e1)
  with assms stdev_positive_Inl [OF Inl] show ?thesis by (simp add: selected_path_index_def)
next
  case (Inr bw)
  note w = Inr
  show ?thesis
  proof (cases "stdev_positive (map of_int ls)")
    case (Inl e1)
    with assms w stdev_positive_Inl [OF Inl] show ?thesis by (simp add: selected_path_index_def)
  next
    case (Inr bl)
    with assms w have "py_randint randint 0 (int n - 1) s = Inl e"
      by (simp add: selected_path_index_def split: if_splits)
    from py_randint_Inl [OF this] show ?thesis by simp
  qed
qed

lemma select_best_path_Raise:
  assumes "select_best_path randint g ps ls ws de ds s = (Raise e g', s')"
  shows "e \<noteq> RecursionError"
proof (cases "length ps = 1")
  case True
  with assms show ?thesis by (simp add: select_best_path_def)
next
  case False
  show ?thesis
  proof (cases "selected_path_index randint (length ps) ls ws s")
    case (Inl e1)
    with assms False selected_path_index_Inl [OF Inl] show ?thesis
      by (simp add: select_best_path_def)
  next
    case (Inr r)
    obtain k s1 where r: "r = (k, s1)" by (cases r)
    show ?thesis
    proof (cases "pop ps k")
      case (Inl e1)
      with assms False Inr r show ?thesis
        by (auto simp: select_best_path_def pop_def split: if_splits)
    next
      case (Inr losers)
      with assms False \<open>selected_path_index randint (length ps) ls ws s = Inr r\<close> r
      have "remove_paths g losers de ds = Raise e g'" by (simp add: select_best_path_def)
      then show ?thesis by (rule remove_paths_Raise)
    qed
  qed
qed

lemma collect_Inl:
  "collect rs = Inl e \<Longrightarrow> Inl e \<in> set rs"
proof (induction rs)
  case Nil
  then show ?case by simp
next
  case (Cons r rs)
  then show ?case by (cases r) (auto split: sum.splits)
qed

lemma solve_bubble_Raise:
  assumes "solve_bubble randint g anc desc s = (Raise e g', s')"
  shows "e \<noteq> RecursionError"
proof (cases "\<exists>a d. anc = Some a \<and> desc = Some d")
  case False
  with assms show ?thesis by (auto simp: solve_bubble_def split: option.splits)
next
  case True
  then obtain a d where ad: "anc = Some a" "desc = Some d" by blast
  show ?thesis
  proof (cases "all_simple_paths g a d")
    case (Inl e1)
    with assms ad show ?thesis
      by (auto simp: solve_bubble_def all_simple_paths_def split: if_splits)
  next
    case (Inr all_paths)
    note ps = Inr
    show ?thesis
    proof (cases "collect (map (path_average_weight g) all_paths)")
      case (Inl e1)
      from collect_Inl [OF Inl] have "e1 = StatisticsError"
        by (auto simp: path_average_weight_def mean_def split: if_splits)
      with assms ad ps Inl show ?thesis by (simp add: solve_bubble_def)
    next
      case (Inr ws)
      with assms ad ps have "select_best_path randint g all_paths
          (map (\<lambda>path. int (length path) - 1) all_paths) ws False False s = (Raise e g', s')"
        by (simp add: solve_bubble_def)
      then show ?thesis by (rule select_best_path_Raise)
    qed
  qed
qed

lemma scan_pairs_Inl:
  assumes "\<And>x y. lca g x y \<noteq> Inl RecursionError"
  shows "scan_pairs lca g node node_i rest st = Inl e \<Longrightarrow> e \<noteq> RecursionError"
proof (induction rest arbitrary: st)
  case Nil
  then show ?case by simp
next
  case (Cons node_j rest)
  obtain b anc desc where st: "st = (b, anc, desc)" by (cases st)
  show ?case
  proof (cases "lca g node_i node_j")
    case (Inl e1)
    with Cons.prems st assms [of node_i node_j] show ?thesis by auto
  next
    case (Inr r)
    with Cons.prems st Cons.IH show ?thesis by (cases r) auto
  qed
qed

lemma scan_preds_Inl:
  assumes "\<And>x y. lca g x y \<noteq> Inl RecursionError"
  shows "scan_preds lca g node l st = Inl e \<Longrightarrow> e \<noteq> RecursionError"
proof (induction l arbitrary: st)
  case Nil
  then show ?case by simp
next
  case (Cons node_i rest)
  show ?case
  proof (cases "scan_pairs lca g node node_i rest st")
    case (Inl e1)
    with Cons.prems scan_pairs_Inl [OF assms Inl] show ?thesis by simp
  next
    case (Inr st1)
    obtain b anc desc where "st1 = (b, anc, desc)" by (cases st1)
    with Inr Cons.prems Cons.IH show ?thesis by (cases b) auto
  qed
qed

lemma scan_nodes_Inl:
  assumes "\<And>x y. lca g x y \<noteq> Inl RecursionError"
  shows "scan_nodes lca g ns st = Inl e \<Longrightarrow> e \<noteq> RecursionError"
proof (induction ns arbitrary: st)
  case Nil
  then show ?case by simp
next
  case (Cons node rest)
  show ?case
  proof (cases "length (predecessors g node) > 1")
    case True
    show ?thesis
    proof (cases "scan_preds lca g node (predecessors g node) st")
      case (Inl e1)
      with Cons.prems True scan_preds_Inl [OF assms Inl] show ?thesis by simp
    next
      case (Inr st1)
      with Cons.prems True Cons.IH show ?thesis by simp
    qed
  next
    case False
    with Cons.prems Cons.IH show ?thesis by simp
  qed
qed

lemma set_without: "set (without i xs) \<subseteq> set xs"
  by (auto simp: without_def dest: in_set_takeD in_set_dropD)

lemma length_without: "i < length xs \<Longrightarrow> length (without i xs) = length xs - 1"
  by (simp add: without_def)

lemma solve_bubble_decreases:
  assumes c: "lca_contract lca" and wf: "wf_graph g"
    and f: "found lca g (True, anc, desc)"
    and ok: "solve_bubble randint g anc desc s = (Ok g1, s1)"
  shows "wf_graph g1" and "length (edges g1) < length (edges g)"
proof -
  from ok obtain a d all_paths ws where ad: "anc = Some a" "desc = Some d"
    and ps: "all_simple_paths g a d = Inr all_paths"
    and sel: "select_best_path randint g all_paths
           (map (\<lambda>path. int (length path) - 1) all_paths) ws False False s = (Ok g1, s1)"
    by (rule solve_bubble_Ok)
  from f ad obtain x y where xy: "x \<in> set (predecessors g d)" "y \<in> set (predecessors g d)"
    "x \<noteq> y" and l: "lca g x y = Inr (Some a)"
    by (auto simp: found_def)
  from c l have dag: "is_dag g" and r: "reaches g a x" "reaches g a y"
    by (auto simp: lca_contract_def)
  from two_paths_of_bubble [OF wf dag r xy ps] have two: "2 \<le> length all_paths" .
  with select_best_path_Ok [OF sel] obtain i where i: "i < length all_paths"
    and rp: "remove_paths g (without i all_paths) False False = Ok g1" by auto
  from remove_paths_result(1) [OF wf rp] show "wf_graph g1" .
  from remove_paths_result(2) [OF wf rp]
  have e: "edges g1 = filter (\<lambda>e. fst e \<notin> paths_edges (without i all_paths)) (edges g)"
    by simp
  from two length_without [OF i] have "length (without i all_paths) \<noteq> 0" by linarith
  then have "without i all_paths \<noteq> []" by simp
  then obtain p where p: "p \<in> set (without i all_paths)"
    using last_in_set by blast
  with set_without [of i all_paths] have pa: "p \<in> set all_paths" by blast
  from ps have "a \<in> set (nodes g)"
    by (simp add: all_simple_paths_def split: if_splits)
  from all_simple_paths_set [OF wf this, of d] ps
  have "set all_paths = {p. is_simple_path g a d p}" by simp
  with pa have sp: "is_simple_path g a d p" by simp
  then obtain q0 where p0: "p = a # q0" and q0: "q0 \<noteq> []" "is_chain g a q0"
    by (cases p) (simp_all add: is_simple_path_def)
  from q0(1) obtain v q where "q0 = v # q" by (cases q0) simp_all
  with p0 q0(2) have pv: "p = a # v # q" and v: "v \<in> set (successors g a)"
    by simp_all
  from v obtain e0 where e0: "e0 \<in> set (edges g)" "fst e0 = (a, v)"
    by (auto simp: successors_edge)
  from pv have "(a, v) \<in> set (path_edges p)" by (simp add: path_edges_def)
  with p have "(a, v) \<in> paths_edges (without i all_paths)"
    unfolding paths_edges_def by blast
  with e0 have "\<not> (fst e0 \<notin> paths_edges (without i all_paths))" by simp
  from length_filter_less [of e0 "edges g" "\<lambda>e. fst e \<notin> paths_edges (without i all_paths)",
      OF e0(1) this] e
  show "length (edges g1) < length (edges g)" by simp
qed

lemma scan_pairs_mono:
  "scan_pairs lca g node node_i rest st = Inr st' \<Longrightarrow> fst st \<Longrightarrow> fst st'"
proof (induction rest arbitrary: st)
  case Nil
  then show ?case by simp
next
  case (Cons node_j rest)
  obtain b anc desc where st: "st = (b, anc, desc)" by (cases st)
  show ?case
  proof (cases "lca g node_i node_j")
    case (Inl e)
    with Cons.prems st show ?thesis by simp
  next
    case (Inr r)
    with Cons.prems st Cons.IH [of "(b, None, desc)"] show ?thesis by (cases r) auto
  qed
qed

lemma scan_pairs_False:
  "scan_pairs lca g node node_i rest st = Inr (False, anc', desc') \<Longrightarrow>
     \<forall>node_j \<in> set rest. lca g node_i node_j = Inr None"
proof (induction rest arbitrary: st)
  case Nil
  then show ?case by simp
next
  case (Cons node_j rest)
  obtain b anc desc where st: "st = (b, anc, desc)" by (cases st)
  show ?case
  proof (cases "lca g node_i node_j")
    case (Inl e)
    with Cons.prems st show ?thesis by simp
  next
    case (Inr r)
    with Cons.prems st Cons.IH [of "(b, None, desc)"] show ?thesis by (cases r) auto
  qed
qed

lemma scan_preds_mono:
  "scan_preds lca g node l st = Inr st' \<Longrightarrow> fst st \<Longrightarrow> fst st'"
proof (induction l arbitrary: st)
  case Nil
  then show ?case by simp
next
  case (Cons node_i rest)
  from Cons.prems(1) obtain st1 where p: "scan_pairs lca g node node_i rest st = Inr st1"
    by (auto split: sum.splits)
  from scan_pairs_mono [OF p Cons.prems(2)] have f: "fst st1" .
  obtain b anc desc where st1: "st1 = (b, anc, desc)" by (cases st1)
  with f have "b" by simp
  with Cons.prems(1) p st1 have "st' = st1" by simp
  with f show ?case by simp
qed

lemma scan_preds_False:
  "scan_preds lca g node l st = Inr (False, anc', desc') \<Longrightarrow>
     \<forall>i j. i < j \<and> j < length l \<longrightarrow> lca g (l ! i) (l ! j) = Inr None"
proof (induction l arbitrary: st)
  case Nil
  then show ?case by simp
next
  case (Cons node_i rest)
  from Cons.prems(1) obtain st1 where p: "scan_pairs lca g node node_i rest st = Inr st1"
    by (auto split: sum.splits)
  obtain b anc desc where st1: "st1 = (b, anc, desc)" by (cases st1)
  have nb: "\<not> b" using Cons.prems p st1 by (cases b) auto
  with Cons.prems p st1 have r: "scan_preds lca g node rest st1 = Inr (False, anc', desc')"
    by simp
  from p st1 nb have h: "\<forall>node_j \<in> set rest. lca g node_i node_j = Inr None"
    using scan_pairs_False by fastforce
  note ih = Cons.IH [OF r]
  show ?case
  proof (intro allI impI)
    fix i j assume ij: "i < j \<and> j < length (node_i # rest)"
    then obtain j' where j': "j = Suc j'" "j' < length rest" by (cases j) auto
    show "lca g ((node_i # rest) ! i) ((node_i # rest) ! j) = Inr None"
    proof (cases i)
      case 0
      with j' h show ?thesis by simp
    next
      case (Suc i')
      with ij j' ih show ?thesis by simp
    qed
  qed
qed

lemma scan_nodes_mono:
  "scan_nodes lca g ns st = Inr st' \<Longrightarrow> fst st \<Longrightarrow> fst st'"
proof (induction ns arbitrary: st)
  case Nil
  then show ?case by simp
next
  case (Cons node rest)
  show ?case
  proof (cases "length (predecessors g node) > 1")
    case True
    with Cons.prems(1) obtain st1 where
      p: "scan_preds lca g node (predecessors g node) st = Inr st1"
      and r: "scan_nodes lca g rest st1 = Inr st'"
      by (auto split: sum.splits)
    from scan_preds_mono [OF p Cons.prems(2)] Cons.IH [OF r] show ?thesis by simp
  next
    case False
    with Cons.prems Cons.IH show ?thesis by simp
  qed
qed

lemma scan_nodes_False:
  "scan_nodes lca g ns st = Inr (False, anc', desc') \<Longrightarrow>
     \<forall>node \<in> set ns. \<forall>i j. i < j \<and> j < length (predecessors g node) \<longrightarrow>
        lca g (predecessors g node ! i) (predecessors g node ! j) = Inr None"
proof (induction ns arbitrary: st)
  case Nil
  then show ?case by simp
next
  case (Cons node rest)
  show ?case
  proof (cases "length (predecessors g node) > 1")
    case True
    with Cons.prems(1) obtain st1 where
      p: "scan_preds lca g node (predecessors g node) st = Inr st1"
      and r: "scan_nodes lca g rest st1 = Inr (False, anc', desc')"
      by (auto split: sum.splits)
    obtain b anc desc where st1: "st1 = (b, anc, desc)" by (cases st1)
    have "\<not> b" using scan_nodes_mono [OF r] st1 by auto
    with p st1 have "scan_preds lca g node (predecessors g node) st = Inr (False, anc, desc)"
      by simp
    from scan_preds_False [OF this] Cons.IH [OF r] show ?thesis by simp
  next
    case False
    then have "\<forall>i j. i < j \<and> j < length (predecessors g node) \<longrightarrow>
        lca g (predecessors g node ! i) (predecessors g node ! j) = Inr None" by auto
    moreover from False Cons.prems have "scan_nodes lca g rest st = Inr (False, anc', desc')"
      by simp
    ultimately show ?thesis using Cons.IH by simp
  qed
qed

lemma simplify_bubbles_Ok_no_bubble:
  "simplify_bubbles lca randint limit g s = (Ok g', s') \<Longrightarrow> no_bubble lca g'"
proof (induction limit arbitrary: g s)
  case 0
  then show ?case by simp
next
  case (Suc limit)
  show ?case
  proof (cases "scan_nodes lca g (nodes g) (False, None, None)")
    case (Inl e)
    with Suc.prems show ?thesis by simp
  next
    case (Inr st)
    obtain b anc desc where st: "st = (b, anc, desc)" by (cases st)
    show ?thesis
    proof (cases b)
      case False
      with Suc.prems Inr st have "g' = g" by simp
      with scan_nodes_False [of lca g "nodes g" _ anc desc] Inr st False
      show ?thesis by (simp add: no_bubble_def)
    next
      case True
      show ?thesis
      proof (cases "solve_bubble randint g anc desc s")
        case (Pair out s1)
        show ?thesis
        proof (cases out)
          case (Ok g1)
          with Suc.prems Inr st True Pair
          have "simplify_bubbles lca randint limit g1 s1 = (Ok g', s')" by simp
          then show ?thesis by (rule Suc.IH)
        next
          case (Raise e g1)
          with Suc.prems Inr st True Pair show ?thesis by simp
        qed
      qed
    qed
  qed
qed

lemma simplify_bubbles_no_exhaustion:
  assumes "lca_contract lca"
  shows "wf_graph g \<Longrightarrow> length (edges g) < limit \<Longrightarrow>
     simplify_bubbles lca randint limit g s \<noteq> (Raise RecursionError g', s')"
proof (induction limit arbitrary: g s)
  case 0
  then show ?case by simp
next
  case (Suc limit)
  from assms have nr: "\<And>x y. lca g x y \<noteq> Inl RecursionError"
    by (simp add: lca_contract_def)
  show ?case
  proof (cases "scan_nodes lca g (nodes g) (False, None, None)")
    case (Inl e)
    with scan_nodes_Inl [OF nr Inl] show ?thesis by simp
  next
    case (Inr st)
    obtain b anc desc where st: "st = (b, anc, desc)" by (cases st)
    have "found lca g (False, None, None)" by (simp add: found_def)
    from scan_nodes_found [OF Suc.prems(1) Inr this] st
    have f: "found lca g (b, anc, desc)" by simp
    show ?thesis
    proof (cases b)
      case False
      with Inr st show ?thesis by simp
    next
      case True
      show ?thesis
      proof (cases "solve_bubble randint g anc desc s")
        case (Pair out s1)
        show ?thesis
        proof (cases out)
          case (Ok g1)
          from f True have f': "found lca g (True, anc, desc)" by simp
          from Pair Ok have ok: "solve_bubble randint g anc desc s = (Ok g1, s1)" by simp
          from solve_bubble_decreases [OF assms Suc.prems(1) f' ok] Suc.prems(2)
          have "wf_graph g1" "length (edges g1) < limit" by simp_all
          from Suc.IH [OF this] Inr st True Pair Ok show ?thesis by simp
        next
          case (Raise e g1)
          from Pair Raise have "solve_bubble randint g anc desc s = (Raise e g1, s1)" by simp
          from solve_bubble_Raise [OF this] Inr st True Pair Raise show ?thesis by simp
        qed
      qed
    qed
  qed
qed

lemma lca_contract_lowest_common_ancestor: "lca_contract lowest_common_ancestor"
  unfolding lca_contract_def
proof (intro allI conjI)
  fix g :: "'a graph" and node1 node2
  show "lowest_common_ancestor g node1 node2 \<noteq> Inl RecursionError"
    by (simp add: lowest_common_ancestor_def)
next
  fix g :: "'a graph" and node1 node2 a
  show "lowest_common_ancestor g node1 node2 = Inr (Some a) \<longrightarrow>
      is_dag g \<and> reaches g a node1 \<and> reaches g a node2"
  proof
    assume a: "lowest_common_ancestor g node1 node2 = Inr (Some a)"
    then have d: "is_dag g" by (auto simp: lowest_common_ancestor_def split: if_splits)
    from a have "find (\<lambda>a. reaches g a node1 \<and> reaches g a node2 \<and>
                           list_all (\<lambda>b. \<not> (reaches g b node1 \<and> reaches g b node2))
                                    (successors g a)) (nodes g) = Some a"
      by (auto simp: lowest_common_ancestor_def split: if_splits)
    then have "reaches g a node1 \<and> reaches g a node2" by (auto simp: find_Some_iff)
    with d show "is_dag g \<and> reaches g a node1 \<and> reaches g a node2" by simp
  qed
qed

section \<open>Termination of the bubble simplification, and reproducible runs\<close>

lemma scan_pairs_none:
  "\<forall>node_j \<in> set rest. lca g node_i node_j = Inr None \<Longrightarrow>
     scan_pairs lca g node node_i rest (False, None, None) = Inr (False, None, None)"
  by (induction rest) simp_all

lemma scan_preds_none:
  "\<forall>i j. i < j \<and> j < length l \<longrightarrow> lca g (l ! i) (l ! j) = Inr None \<Longrightarrow>
     scan_preds lca g node l (False, None, None) = Inr (False, None, None)"
proof (induction l)
  case Nil
  then show ?case by simp
next
  case (Cons node_i rest)
  have "\<forall>node_j \<in> set rest. lca g node_i node_j = Inr None"
  proof
    fix node_j assume "node_j \<in> set rest"
    then obtain j where j: "j < length rest" "rest ! j = node_j"
      by (auto simp: in_set_conv_nth)
    with Cons.prems [rule_format, of 0 "Suc j"] show "lca g node_i node_j = Inr None" by simp
  qed
  then have p: "scan_pairs lca g node node_i rest (False, None, None) = Inr (False, None, None)"
    by (rule scan_pairs_none)
  have "\<forall>i j. i < j \<and> j < length rest \<longrightarrow> lca g (rest ! i) (rest ! j) = Inr None"
  proof (intro allI impI)
    fix i j assume "i < j \<and> j < length rest"
    with Cons.prems [rule_format, of "Suc i" "Suc j"]
    show "lca g (rest ! i) (rest ! j) = Inr None" by simp
  qed
  from Cons.IH [OF this] p show ?case by simp
qed

lemma scan_nodes_none:
  "\<forall>node \<in> set ns. \<forall>i j. i < j \<and> j < length (predecessors g node) \<longrightarrow>
        lca g (predecessors g node ! i) (predecessors g node ! j) = Inr None \<Longrightarrow>
     scan_nodes lca g ns (False, None, None) = Inr (False, None, None)"
proof (induction ns)
  case Nil
  then show ?case by simp
next
  case (Cons node rest)
  from Cons.prems have "\<forall>i j. i < j \<and> j < length (predecessors g node) \<longrightarrow>
        lca g (predecessors g node ! i) (predecessors g node ! j) = Inr None" by simp
  from scan_preds_none [where l = "predecessors g node" and lca = lca and g = g, OF this]
  have "scan_preds lca g node (predecessors g node) (False, None, None) = Inr (False, None, None)" .
  moreover from Cons.prems Cons.IH
  have "scan_nodes lca g rest (False, None, None) = Inr (False, None, None)" by simp
  ultimately show ?case by simp
qed

text \<open>
  Claim C3. The library's function answers with common ancestors, and in acyclic graphs
  only (\<open>lca_contract\<close>). Then \<^verbatim>\<open>simplify_bubbles\<close> never exhausts a recursion limit
  above the number of edges: it calls itself at most once per edge, and ends by
  returning a graph or by an exception of the scan or of the resolution. Each resolution
  that the scan leads to and that returns leaves fewer edges. The recursion stops, with
  the graph returned as it is, when the scan finds no pair of predecessors with a common
  ancestor; and a graph that is returned has none.
\<close>

theorem simplify_bubbles_terminates:
  assumes "lca_contract lca" and "wf_graph g" and "length (edges g) < limit"
  shows "(\<forall>g' s'. simplify_bubbles lca randint limit g s \<noteq> (Raise RecursionError g', s')) \<and>
    (\<forall>anc desc g1 s1.
       scan_nodes lca g (nodes g) (False, None, None) = Inr (True, anc, desc) \<and>
       solve_bubble randint g anc desc s = (Ok g1, s1) \<longrightarrow>
         length (edges g1) < length (edges g)) \<and>
    (no_bubble lca g \<longrightarrow> simplify_bubbles lca randint limit g s = (Ok g, s)) \<and>
    (\<forall>g' s'. simplify_bubbles lca randint limit g s = (Ok g', s') \<longrightarrow> no_bubble lca g')"
proof (intro conjI allI impI)
  fix g' s'
  show "simplify_bubbles lca randint limit g s \<noteq> (Raise RecursionError g', s')"
    using assms by (rule simplify_bubbles_no_exhaustion)
next
  fix anc desc g1 s1
  assume a: "scan_nodes lca g (nodes g) (False, None, None) = Inr (True, anc, desc) \<and>
       solve_bubble randint g anc desc s = (Ok g1, s1)"
  have "found lca g (False, None, None)" by (simp add: found_def)
  from a have sc: "scan_nodes lca g (nodes g) (False, None, None) = Inr (True, anc, desc)"
    and sb: "solve_bubble randint g anc desc s = (Ok g1, s1)" by simp_all
  from scan_nodes_found [OF assms(2) sc \<open>found lca g (False, None, None)\<close>]
  have "found lca g (True, anc, desc)" .
  from solve_bubble_decreases(2) [OF assms(1,2) this sb]
  show "length (edges g1) < length (edges g)" .
next
  assume "no_bubble lca g"
  then have "scan_nodes lca g (nodes g) (False, None, None) = Inr (False, None, None)"
    unfolding no_bubble_def by (rule scan_nodes_none)
  moreover from assms(3) obtain n where "limit = Suc n" by (cases limit) auto
  ultimately show "simplify_bubbles lca randint limit g s = (Ok g, s)" by simp
next
  fix g' s'
  assume "simplify_bubbles lca randint limit g s = (Ok g', s')"
  then show "no_bubble lca g'" by (rule simplify_bubbles_Ok_no_bubble)
qed

theorem simplify_bubbles_terminates_witness:
  "simplify_bubbles lowest_common_ancestor lcg_randint 5
     \<lparr>nodes = [1::nat, 2, 3, 4], edges = [((1, 2), 5), ((1, 3), 1), ((2, 4), 5), ((3, 4), 1)]\<rparr>
     (9001::nat)
   = (Ok \<lparr>nodes = [1, 2, 4], edges = [((1, 2), 5), ((2, 4), 5)]\<rparr>, 9001) \<and>
   no_bubble lowest_common_ancestor
     \<lparr>nodes = [1::nat, 2, 4], edges = [((1, 2), 5), ((2, 4), 5)]\<rparr> \<and>
   scan_nodes lowest_common_ancestor
     \<lparr>nodes = [1::nat, 2, 3, 4], edges = [((1, 2), 5), ((1, 3), 1), ((2, 4), 5), ((3, 4), 1)]\<rparr>
     [1, 2, 3, 4] (False, None, None) = Inr (True, Some 1, Some 4) \<and>
   length (edges \<lparr>nodes = [1::nat, 2, 4], edges = [((1, 2), 5), ((2, 4), 5)]\<rparr>)
     < length (edges \<lparr>nodes = [1::nat, 2, 3, 4],
         edges = [((1, 2), 5), ((1, 3), 1), ((2, 4), 5), ((3, 4), 1)]\<rparr>)"
proof -
  let ?g = "\<lparr>nodes = [1::nat, 2, 3, 4],
             edges = [((1, 2), 5), ((1, 3), 1), ((2, 4), 5), ((3, 4), (1::int))]\<rparr>"
  let ?g' = "\<lparr>nodes = [1::nat, 2, 4], edges = [((1, 2), 5), ((2, 4), (5::int))]\<rparr>"
  have w: "wf_graph ?g" by (simp add: wf_graph_def)
  have l: "length (edges ?g) < 5" by simp
  have h: "simplify_bubbles lowest_common_ancestor lcg_randint 5 ?g (9001::nat) = (Ok ?g', 9001)"
    by code_simp
  have sc: "scan_nodes lowest_common_ancestor ?g [1, 2, 3, 4] (False, None, None)
      = Inr (True, Some 1, Some 4)"
    by code_simp
  have sb: "solve_bubble lcg_randint ?g (Some 1) (Some 4) (9001::nat) = (Ok ?g', 9001)"
    by code_simp
  note t = simplify_bubbles_terminates [OF lca_contract_lowest_common_ancestor w l,
      of lcg_randint "9001::nat"]
  from t [THEN conjunct2, THEN conjunct2, THEN conjunct2, rule_format, OF h]
  have nb: "no_bubble lowest_common_ancestor ?g'" .
  have "length (edges ?g') < length (edges ?g)" by simp
  with nb h sc show ?thesis by simp
qed

lemma selected_path_index_tie:
  "selected_path_index randint 2 [l, l] [w, w] s = Inr (randint 0 1 s)"
proof -
  have "stdev_positive [w, w] = Inr False" by (simp add: stdev_positive_iff)
  moreover have "stdev_positive (map of_int [l, l]) = Inr False"
    by (simp add: stdev_positive_iff)
  ultimately show ?thesis
    by (simp add: selected_path_index_def py_randint_def)
qed

lemma select_best_path_tie:
  "select_best_path randint g [p, q] [l, l] [w, w] de ds s =
     (case pop [p, q] (fst (randint 0 1 s)) of
        Inl e \<Rightarrow> (Raise e g, snd (randint 0 1 s))
      | Inr losers \<Rightarrow> (remove_paths g losers de ds, snd (randint 0 1 s)))"
proof -
  have i: "selected_path_index randint (length [p, q]) [l, l] [w, w] s = Inr (randint 0 1 s)"
    using selected_path_index_tie [of randint l w s] by (simp add: numeral_2_eq_2)
  show ?thesis unfolding select_best_path_def i by (simp add: split_beta)
qed

lemma lca_contract_lowest_common_ancestor_rev: "lca_contract lowest_common_ancestor_rev"
  unfolding lca_contract_def
proof (intro allI conjI)
  fix g :: "'a graph" and node1 node2
  show "lowest_common_ancestor_rev g node1 node2 \<noteq> Inl RecursionError"
    by (simp add: lowest_common_ancestor_rev_def)
next
  fix g :: "'a graph" and node1 node2 a
  show "lowest_common_ancestor_rev g node1 node2 = Inr (Some a) \<longrightarrow>
      is_dag g \<and> reaches g a node1 \<and> reaches g a node2"
  proof
    assume a: "lowest_common_ancestor_rev g node1 node2 = Inr (Some a)"
    then have d: "is_dag g" by (auto simp: lowest_common_ancestor_rev_def split: if_splits)
    from a have "find (\<lambda>a. is_lowest_common_ancestor g a node1 node2) (rev (nodes g)) = Some a"
      by (auto simp: lowest_common_ancestor_rev_def split: if_splits)
    then have "is_lowest_common_ancestor g a node1 node2" by (auto simp: find_Some_iff)
    with d show "is_dag g \<and> reaches g a node1 \<and> reaches g a node2"
      by (simp add: is_lowest_common_ancestor_def)
  qed
qed

text \<open>
  Claim C8, as the code has it. For two paths of equal weight and equal length the
  selected index is the number \<^verbatim>\<open>randint(0, 1)\<close> draws, whatever the graph, the paths,
  the weight and the length are, and the graph returned depends on the state of the
  generator through that number only. So two runs of \<^verbatim>\<open>select_best_path\<close> in which the
  generator draws the same number, as it does from the same seed, select the same path
  and return the same graph. Nothing is said of the whole pipeline.
\<close>

theorem tied_selection_follows_the_draw:
  assumes "fst (randint 0 1 s1) = fst (randint 0 1 s2)"
  shows "selected_path_index randint 2 [l, l] [w, w] s1 = Inr (randint 0 1 s1) \<and>
    selected_path_index randint 2 [l, l] [w, w] s2 = Inr (randint 0 1 s2) \<and>
    fst (select_best_path randint g [p, q] [l, l] [w, w] de ds s1)
      = fst (select_best_path randint g [p, q] [l, l] [w, w] de ds s2)"
proof -
  have "fst (select_best_path randint g [p, q] [l, l] [w, w] de ds s) =
      (case pop [p, q] (fst (randint 0 1 s)) of
         Inl e \<Rightarrow> Raise e g
       | Inr losers \<Rightarrow> remove_paths g losers de ds)" for s
    unfolding select_best_path_tie by (simp split: sum.splits)
  with assms show ?thesis by (simp add: selected_path_index_tie)
qed

theorem tied_selection_follows_the_draw_witness:
  "fst (lcg_randint 0 1 (1::nat)) = fst (lcg_randint 0 1 (3::nat)) \<and>
   selected_path_index lcg_randint 2 [2, 2] [3, 3] (1::nat) = Inr (1, 1103527590) \<and>
   fst (select_best_path lcg_randint
          \<lparr>nodes = [1::nat, 2, 3, 4],
           edges = [((1, 2), 3), ((1, 3), 3), ((2, 4), 3), ((3, 4), 3)]\<rparr>
          [[1, 2, 4], [1, 3, 4]] [2, 2] [3, 3] False False (1::nat))
     = fst (select_best_path lcg_randint
          \<lparr>nodes = [1::nat, 2, 3, 4],
           edges = [((1, 2), 3), ((1, 3), 3), ((2, 4), 3), ((3, 4), 3)]\<rparr>
          [[1, 2, 4], [1, 3, 4]] [2, 2] [3, 3] False False (3::nat))"
proof -
  have d: "lcg_randint 0 1 (1::nat) = (1, 1103527590)" "fst (lcg_randint 0 1 (3::nat)) = 1"
    by (simp_all add: lcg_randint_def)
  then have h: "fst (lcg_randint 0 1 (1::nat)) = fst (lcg_randint 0 1 (3::nat))" by simp
  from tied_selection_follows_the_draw [where randint = lcg_randint and ?s1.0 = "1::nat"
      and ?s2.0 = "3::nat" and l = 2 and w = 3 and p = "[1, 2, 4]" and q = "[1, 3, 4]"
      and de = False and ds = False
      and g = "\<lparr>nodes = [1::nat, 2, 3, 4],
           edges = [((1, 2), 3), ((1, 3), 3), ((2, 4), 3), ((3, 4), 3)]\<rparr>", OF h] d h
  show ?thesis by simp
qed

text \<open>
  Claim C8 as stated fails for the whole pipeline. In the graph of the reads below, for
  k = 3, the predecessors CT and AT of TG have the two lowest common ancestors CA and GA.
  A run in which the library answers CA assembles CACTG, a run in which it answers GA
  assembles GATG, from the same reads and the same state of the generator; no number is
  drawn in either run.
\<close>

theorem pipeline_output_varies_with_the_ancestor_chosen:
  "is_lowest_common_ancestor
     (build_graph (build_kmer_dict
        [''CAT'', ''CACTG'', ''CACTG'', ''GATG'', ''GATG'', ''GAT'', ''GAC''] 3))
     ''CA'' ''CT'' ''AT'' \<and>
   is_lowest_common_ancestor
     (build_graph (build_kmer_dict
        [''CAT'', ''CACTG'', ''CACTG'', ''GATG'', ''GATG'', ''GAT'', ''GAC''] 3))
     ''GA'' ''CT'' ''AT'' \<and>
   lowest_common_ancestor
     (build_graph (build_kmer_dict
        [''CAT'', ''CACTG'', ''CACTG'', ''GATG'', ''GATG'', ''GAT'', ''GAC''] 3))
     ''CT'' ''AT'' = Inr (Some ''CA'') \<and>
   lowest_common_ancestor_rev
     (build_graph (build_kmer_dict
        [''CAT'', ''CACTG'', ''CACTG'', ''GATG'', ''GATG'', ''GAT'', ''GAC''] 3))
     ''CT'' ''AT'' = Inr (Some ''GA'') \<and>
   assemble lowest_common_ancestor lcg_randint 1000
     [''CAT'', ''CACTG'', ''CACTG'', ''GATG'', ''GATG'', ''GAT'', ''GAC''] 3 (9001::nat)
     = (Inr [(''CACTG'', 5)], 9001) \<and>
   assemble lowest_common_ancestor_rev lcg_randint 1000
     [''CAT'', ''CACTG'', ''CACTG'', ''GATG'', ''GATG'', ''GAT'', ''GAC''] 3 (9001::nat)
     = (Inr [(''GATG'', 4)], 9001)"
  by code_simp

lemma tie_break_depends_on_the_state:
  "selected_path_index lcg_randint 2 [3, 3] [5, 5] (0::nat) = Inr (0, 12345) \<and>
   selected_path_index lcg_randint 2 [3, 3] [5, 5] (1::nat) = Inr (1, 1103527590)"
  by (simp add: selected_path_index_tie lcg_randint_def)

section \<open>The graph that is built\<close>

text \<open>
  \<^verbatim>\<open>build_graph\<close> gives a graph that keeps the library's invariant, and the labels of
  the graph of the k-mers of size \<open>k\<close> have length \<open>k - 1\<close>.
\<close>

lemma wf_add_node: "wf_graph g \<Longrightarrow> wf_graph (add_node g n)"
  by (auto simp: wf_graph_def add_node_def)

lemma nodes_add_node: "set (nodes (add_node g n)) = insert n (set (nodes g))"
  by (auto simp: add_node_def)

lemma edges_add_node: "edges (add_node g n) = edges g"
  by (simp add: add_node_def)

lemma wf_graph_keys:
  "wf_graph g \<longleftrightarrow>
     distinct (nodes g) \<and> distinct (map fst (edges g)) \<and>
     (\<forall>k \<in> set (map fst (edges g)). fst k \<in> set (nodes g) \<and> snd k \<in> set (nodes g))"
  by (simp add: wf_graph_def)

lemma wf_graph_same_keys:
  assumes "wf_graph g" "nodes g' = nodes g" "map fst (edges g') = map fst (edges g)"
  shows "wf_graph g'"
  using assms(1) unfolding wf_graph_keys assms(2) assms(3) .

lemma add_edge_wf:
  assumes "wf_graph g"
  shows "wf_graph (add_edge g u v w)"
    and "set (nodes (add_edge g u v w)) = {u, v} \<union> set (nodes g)"
proof -
  let ?g1 = "add_node (add_node g u) v"
  have w1: "wf_graph ?g1" using assms by (intro wf_add_node)
  have n1: "set (nodes ?g1) = {u, v} \<union> set (nodes g)" by (auto simp: nodes_add_node)
  show "set (nodes (add_edge g u v w)) = {u, v} \<union> set (nodes g)"
    using n1 by (simp add: add_edge_def Let_def)
  show "wf_graph (add_edge g u v w)"
  proof (cases "has_edge ?g1 u v")
    case True
    let ?es = "map (\<lambda>e. if fst e = (u, v) then ((u, v), w) else e) (edges ?g1)"
    have m: "map fst ?es = map fst (edges ?g1)"
      by (rule nth_equalityI) simp_all
    have a: "add_edge g u v w = ?g1\<lparr>edges := ?es\<rparr>"
      using True by (simp add: add_edge_def Let_def)
    have "nodes (?g1\<lparr>edges := ?es\<rparr>) = nodes ?g1" by simp
    moreover have "map fst (edges (?g1\<lparr>edges := ?es\<rparr>)) = map fst (edges ?g1)"
      using m by simp
    ultimately have "wf_graph (?g1\<lparr>edges := ?es\<rparr>)"
      by (rule wf_graph_same_keys [OF w1])
    with a show ?thesis by simp
  next
    case False
    then have a: "add_edge g u v w = ?g1\<lparr>edges := edges ?g1 @ [((u, v), w)]\<rparr>"
      by (simp add: add_edge_def Let_def)
    from False have nk: "(u, v) \<notin> set (map fst (edges ?g1))" by (simp add: has_edge_def)
    from n1 have uv: "u \<in> set (nodes ?g1)" "v \<in> set (nodes ?g1)" by simp_all
    have "wf_graph (?g1\<lparr>edges := edges ?g1 @ [((u, v), w)]\<rparr>)"
      unfolding wf_graph_keys using w1 [unfolded wf_graph_keys] nk uv by simp
    with a show ?thesis by simp
  qed
qed

lemma fold_add_edge_wf:
  "wf_graph g \<Longrightarrow>
     wf_graph (fold (\<lambda>(key_i, value_i) G. add_edge G (butlast key_i) (tl key_i) value_i) kd g) \<and>
     set (nodes (fold (\<lambda>(key_i, value_i) G. add_edge G (butlast key_i) (tl key_i) value_i) kd g))
       = set (nodes g) \<union> (\<Union>key \<in> fst ` set kd. {butlast key, tl key})"
proof (induction kd arbitrary: g)
  case Nil
  then show ?case by simp
next
  case (Cons kv kd)
  obtain key c where kv: "kv = (key, c)" by (cases kv)
  from add_edge_wf [OF Cons.prems, of "butlast key" "tl key" c]
  have w: "wf_graph (add_edge g (butlast key) (tl key) c)"
    and n: "set (nodes (add_edge g (butlast key) (tl key) c)) = {butlast key, tl key} \<union> set (nodes g)"
    by simp_all
  from Cons.IH [OF w] n kv show ?case by auto
qed

lemma build_graph_wf:
  "wf_graph (build_graph kmer_dict)"
  "set (nodes (build_graph kmer_dict)) = (\<Union>key \<in> fst ` set kmer_dict. {butlast key, tl key})"
proof -
  have "wf_graph \<lparr>nodes = [], edges = []\<rparr>" by (simp add: wf_graph_def)
  from fold_add_edge_wf [OF this, of kmer_dict]
  show "wf_graph (build_graph kmer_dict)"
    "set (nodes (build_graph kmer_dict)) = (\<Union>key \<in> fst ` set kmer_dict. {butlast key, tl key})"
    by (simp_all add: build_graph_def)
qed

lemma keys_count_kmer: "fst ` set (count_kmer d kmer) = insert kmer (fst ` set d)"
  by (induction d kmer rule: count_kmer.induct) auto

lemma keys_fold_count_kmer:
  "fst ` set (fold (\<lambda>kmer d. count_kmer d kmer) kmers d) = set kmers \<union> fst ` set d"
  by (induction kmers arbitrary: d) (auto simp: keys_count_kmer)

lemma keys_build_kmer_dict_aux:
  "fst ` set (fold (\<lambda>sequence kmer_dict.
        fold (\<lambda>kmer d. count_kmer d kmer) (cut_kmer sequence kmer_size) kmer_dict) reads d)
     = (\<Union>read \<in> set reads. set (cut_kmer read kmer_size)) \<union> fst ` set d"
  by (induction reads arbitrary: d) (auto simp: keys_fold_count_kmer)

lemma length_cut_kmer:
  "kmer \<in> set (cut_kmer read kmer_size) \<Longrightarrow> length kmer = kmer_size"
  by (auto simp: cut_kmer_def)

lemma build_graph_labels:
  assumes "n \<in> set (nodes (build_graph (build_kmer_dict reads kmer_size)))"
  shows "length n = kmer_size - 1"
proof -
  from assms build_graph_wf(2) [of "build_kmer_dict reads kmer_size"]
  obtain key where k: "key \<in> fst ` set (build_kmer_dict reads kmer_size)"
    and n: "n = butlast key \<or> n = tl key" by auto
  from k keys_build_kmer_dict_aux [of kmer_size reads "[]"]
  obtain read where "key \<in> set (cut_kmer read kmer_size)"
    by (auto simp: build_kmer_dict_def)
  then have "length key = kmer_size" by (rule length_cut_kmer)
  with n show ?thesis by auto
qed


section \<open>What the tip solvers return\<close>

text \<open>
  When \<^verbatim>\<open>solve_entry_tips\<close> returns a graph, no node of it has two predecessors; when
  \<^verbatim>\<open>solve_out_tips\<close> returns a graph, no node of it has two successors. (They need not
  return: see the failing inputs above.)
\<close>

lemma solve_entry_tips_Ok:
  "solve_entry_tips randint limit g starting_nodes s = (Ok g', s') \<Longrightarrow>
     \<forall>node \<in> set (nodes g'). length (predecessors g' node) \<le> 1"
proof (induction limit arbitrary: g s)
  case 0
  then show ?case by simp
next
  case (Suc limit)
  show ?case
  proof (cases "find (\<lambda>node. length (predecessors g node) > 1) (nodes g)")
    case None
    with Suc.prems have "g' = g" by simp
    moreover from None have "\<forall>node \<in> set (nodes g). \<not> length (predecessors g node) > 1"
      by (simp add: find_None_iff)
    ultimately show ?thesis by (auto simp: not_less)
  next
    case (Some node)
    with Suc.prems obtain g1 s1 where
      "solve_entry_tips randint limit g1 starting_nodes s1 = (Ok g', s')"
      by (auto split: sum.splits outcome.splits prod.splits)
    then show ?thesis by (rule Suc.IH)
  qed
qed

lemma solve_out_tips_Ok:
  "solve_out_tips randint limit g ending_nodes s = (Ok g', s') \<Longrightarrow>
     \<forall>node \<in> set (nodes g'). length (successors g' node) \<le> 1"
proof (induction limit arbitrary: g s)
  case 0
  then show ?case by simp
next
  case (Suc limit)
  show ?case
  proof (cases "find (\<lambda>node. length (successors g node) > 1) (nodes g)")
    case None
    with Suc.prems have "g' = g" by simp
    moreover from None have "\<forall>node \<in> set (nodes g). \<not> length (successors g node) > 1"
      by (simp add: find_None_iff)
    ultimately show ?thesis by (auto simp: not_less)
  next
    case (Some node)
    with Suc.prems obtain g1 s1 where
      "solve_out_tips randint limit g1 ending_nodes s1 = (Ok g', s')"
      by (auto split: sum.splits outcome.splits prod.splits)
    then show ?thesis by (rule Suc.IH)
  qed
qed

end
